theory Spec2Isabelle
  imports Complex_Main
begin

section \<open>Strings, exceptions and numbers of the Python runtime\<close>

text \<open>
  A Python \<open>str\<close> is modelled as a \<open>string\<close> whose characters are the code points
  below 256. \<open>str.strip()\<close> removes leading and trailing whitespace; the code points
  below 256 for which \<open>str.isspace\<close> holds are 9 to 13, 28 to 32, 133 and 160.
\<close>

definition isspace :: "char \<Rightarrow> bool" where
  "isspace c = (of_char c \<in> {9, 10, 11, 12, 13, 28, 29, 30, 31, 32, 133, 160 :: nat})"

definition strip :: "string \<Rightarrow> string" where
  "strip s = rev (dropWhile isspace (rev (dropWhile isspace s)))"

text \<open>
  Every exception the worker can catch is an instance of \<open>Exception\<close>; only its message
  (\<open>str(e)\<close>) is ever used.
\<close>

datatype exn = Exception (message: string)

text \<open>
  A finite Python float is modelled by the real number it denotes; NaN and the
  infinities are not modelled. Division, multiplication and subtraction of floats round
  their results, so they are parameters of the model: \<open>fdiv\<close>, \<open>fmul\<close> and \<open>fsub\<close> are what
  the machine computes for \<open>x / y\<close>, \<open>x * y\<close> and \<open>x - y\<close>. Comparisons are exact.
  \<open>int(x)\<close> truncates towards zero; \<open>max(a, b)\<close> keeps \<open>a\<close> unless \<open>b > a\<close>, \<open>min(a, b)\<close> keeps
  \<open>a\<close> unless \<open>b < a\<close>.
\<close>

record float_ops =
  fdiv :: "real \<Rightarrow> real \<Rightarrow> real"
  fmul :: "real \<Rightarrow> real \<Rightarrow> real"
  fsub :: "real \<Rightarrow> real \<Rightarrow> real"

text \<open>
  A result \<open>r\<close> computed for the exact value \<open>x\<close> is within rounding when its relative
  error is at most \<open>2\<^sup>-\<^sup>5\<^sup>2\<close>, as for a double in the normal range.
\<close>

definition within_rounding :: "real \<Rightarrow> real \<Rightarrow> bool" where
  "within_rounding r x = (\<bar>r - x\<bar> \<le> \<bar>x\<bar> / 2 ^ 52)"

text \<open>
  The float arithmetic of CPython: IEEE 754 double precision with rounding to nearest,
  ties to even. An operation returns the double nearest to its exact result: with \<open>e\<close>
  the binary exponent of the exact result (not below \<open>-1022\<close>), the doubles around it are the
  multiples of \<open>2\<^sup>e\<^sup>-\<^sup>5\<^sup>2\<close>. Overflow to infinity is not modelled.
\<close>

definition pow2 :: "int \<Rightarrow> real" where
  "pow2 k = (if 0 \<le> k then 2 ^ nat k else 1 / 2 ^ nat (- k))"

definition round_half_even :: "real \<Rightarrow> int" where
  "round_half_even z =
     (let f = \<lfloor>z\<rfloor>; d = z - of_int f in
      if d < 1 / 2 then f else if 1 / 2 < d then f + 1 else if even f then f else f + 1)"

text \<open>
  The binary exponent of a positive number: how often it is halved until it is below 2, or
  doubled until it is at least 1. The bound on the number of steps covers the doubles.
\<close>

fun halvings :: "nat \<Rightarrow> real \<Rightarrow> int" where
  "halvings 0 x = 0"
| "halvings (Suc n) x = (if 2 \<le> x then halvings n (x / 2) + 1 else 0)"

fun doublings :: "nat \<Rightarrow> real \<Rightarrow> int" where
  "doublings 0 x = 0"
| "doublings (Suc n) x = (if x < 1 then doublings n (x * 2) - 1 else 0)"

definition binade :: "real \<Rightarrow> int" where
  "binade x = (if 1 \<le> x then halvings 1024 x else doublings 1075 x)"

definition round_double :: "real \<Rightarrow> real" where
  "round_double x =
     (if x = 0 then 0
      else (let ulp = pow2 (max (binade \<bar>x\<bar>) (- 1022) - 52)
            in ulp * of_int (round_half_even (x / ulp))))"

definition ieee_ops :: float_ops where
  "ieee_ops =
     \<lparr>fdiv = (\<lambda>x y. round_double (x / y)),
      fmul = (\<lambda>x y. round_double (x * y)),
      fsub = (\<lambda>x y. round_double (x - y))\<rparr>"

definition py_int :: "real \<Rightarrow> int" where
  "py_int x = (if 0 \<le> x then \<lfloor>x\<rfloor> else \<lceil>x\<rceil>)"

definition py_max :: "real \<Rightarrow> real \<Rightarrow> real" where
  "py_max a b = (if b > a then b else a)"

definition py_min :: "real \<Rightarrow> real \<Rightarrow> real" where
  "py_min a b = (if b < a then b else a)"

section \<open>Progress events and the transcription engine\<close>

text \<open>
  The tuples put on the queue by \<open>worker_transcribe_all\<close>:
  \<open>("status", text)\<close>, \<open>("file_start", idx, total, filename)\<close>,
  \<open>("segment", text, percent)\<close>,
  \<open>("file_done", idx, total, filename, out_path, file_elapsed)\<close>,
  \<open>("all_done", total_elapsed)\<close> and \<open>("error", message)\<close>.
\<close>

datatype event =
    Status string
  | FileStart nat nat string
  | Segment string int
  | FileDone nat nat string string real
  | AllDone real
  | Error string

text \<open>
  A segment of the engine exposes \<open>text\<close> (possibly \<open>None\<close>) and \<open>end\<close> (possibly \<open>None\<close>).
  \<open>model.transcribe\<close> returns a lazy generator of segments: it yields segments one by one
  and may raise while it is being iterated.
\<close>

record segment =
  seg_text :: "string option"
  seg_end :: "real option"

datatype seg_stream = SEnd | SRaise exn | SYield segment seg_stream

text \<open>The segments a generator yields before it ends or raises.\<close>

fun yielded :: "seg_stream \<Rightarrow> segment list" where
  "yielded SEnd = []"
| "yielded (SRaise e) = []"
| "yielded (SYield s rest) = s # yielded rest"

fun stream_raises :: "seg_stream \<Rightarrow> exn option" where
  "stream_raises SEnd = None"
| "stream_raises (SRaise e) = Some e"
| "stream_raises (SYield s rest) = stream_raises rest"

section \<open>The segment loop of \<open>worker_transcribe_all\<close>\<close>

text \<open>\<open>duration = getattr(info, "duration", None) or 0.0\<close>\<close>

definition duration_or_zero :: "real option \<Rightarrow> real" where
  "duration_or_zero d = (case d of None \<Rightarrow> 0 | Some x \<Rightarrow> if x = 0 then 0 else x)"

text \<open>\<open>text = (seg.text or "").strip()\<close>\<close>

definition stripped_text :: "segment \<Rightarrow> string" where
  "stripped_text s = strip (case seg_text s of None \<Rightarrow> [] | Some t \<Rightarrow> t)"

text \<open>
  \<^verbatim>\<open>
  if duration > 0 and seg.end is not None:
      percent = int(min(max(seg.end / duration * 100, 0), 100))
  else:
      percent = 0
  \<close>
\<close>

definition segment_percent :: "float_ops \<Rightarrow> real \<Rightarrow> real option \<Rightarrow> int" where
  "segment_percent ops duration e =
     (if duration > 0 \<and> e \<noteq> None
      then (case e of
              Some en \<Rightarrow> py_int (py_min (py_max (fmul ops (fdiv ops en duration) 100) 0) 100)
            | None \<Rightarrow> 0)
      else 0)"

text \<open>
  The loop \<open>for seg in segments\<close>: the lines collected, the \<open>segment\<close> events put on the
  queue, and the exception that ended the iteration, if any.
\<close>

fun consume_segments ::
  "float_ops \<Rightarrow> real \<Rightarrow> seg_stream \<Rightarrow> string list \<times> event list \<times> exn option" where
  "consume_segments ops duration SEnd = ([], [], None)"
| "consume_segments ops duration (SRaise e) = ([], [], Some e)"
| "consume_segments ops duration (SYield s rest) =
     (let text = stripped_text s in
      if text = [] then consume_segments ops duration rest
      else (case consume_segments ops duration rest of
              (ls, evs, r) \<Rightarrow>
                (text # ls, Segment text (segment_percent ops duration (seg_end s)) # evs, r)))"

text \<open>
  The percentage as the specification words it, for a segment that has an end time:
  \<open>clamp(segment_end_time / total_duration * 100, 0, 100)\<close> rounded down, in exact
  arithmetic; 0 when the total duration is unknown or not positive.
\<close>

definition clamp :: "real \<Rightarrow> real \<Rightarrow> real \<Rightarrow> real" where
  "clamp x lo hi = max lo (min x hi)"

definition spec_percent :: "real option \<Rightarrow> real \<Rightarrow> int" where
  "spec_percent total_duration segment_end_time =
     (case total_duration of
        None \<Rightarrow> 0
      | Some t \<Rightarrow>
          if t \<le> 0 then 0 else \<lfloor>clamp (segment_end_time / t * 100) 0 100\<rfloor>)"

text \<open>The same formula with the division and the multiplication of the machine.\<close>

definition float_percent :: "float_ops \<Rightarrow> real option \<Rightarrow> real \<Rightarrow> int" where
  "float_percent ops total_duration segment_end_time =
     (case total_duration of
        None \<Rightarrow> 0
      | Some t \<Rightarrow>
          if t \<le> 0 then 0
          else \<lfloor>clamp (fmul ops (fdiv ops segment_end_time t) 100) 0 100\<rfloor>)"

section \<open>Paths\<close>

text \<open>
  A \<open>pathlib.Path\<close> of the POSIX flavour: its root (\<open>""\<close>, \<open>"/"\<close> or \<open>"//"\<close>) and its
  components. \<open>Path(s)\<close> splits \<open>s\<close> at slashes and drops empty and \<open>"."\<close> components, so
  that \<open>Path("")\<close> is \<open>Path(".")\<close>, the current directory.
\<close>

datatype path = Path (anchor: string) (parts: "string list")

fun split_slash :: "string \<Rightarrow> string list" where
  "split_slash [] = [[]]"
| "split_slash (c # cs) =
     (if c = CHR ''/'' then [] # split_slash cs
      else (case split_slash cs of [] \<Rightarrow> [[c]] | w # ws \<Rightarrow> (c # w) # ws))"

definition path_of_str :: "string \<Rightarrow> path" where
  "path_of_str s =
     Path (if take 1 s = ''/''
           then (if take 2 s = ''//'' \<and> take 3 s \<noteq> ''///'' then ''//'' else ''/'')
           else [])
          (filter (\<lambda>c. c \<noteq> [] \<and> c \<noteq> ''.'') (split_slash s))"

fun join_slash :: "string list \<Rightarrow> string" where
  "join_slash [] = []"
| "join_slash [c] = c"
| "join_slash (c # cs) = c @ ''/'' @ join_slash cs"

text \<open>\<open>str(path)\<close>\<close>

definition str_path :: "path \<Rightarrow> string" where
  "str_path p = (if anchor p = [] \<and> parts p = [] then ''.'' else anchor p @ join_slash (parts p))"

text \<open>\<open>path.name\<close>: the final component, empty for \<open>"."\<close> and \<open>"/"\<close>.\<close>

definition name :: "path \<Rightarrow> string" where
  "name p = (if parts p = [] then [] else last (parts p))"

text \<open>\<open>path / other\<close>: an absolute \<open>other\<close> replaces \<open>path\<close>.\<close>

definition joinpath :: "path \<Rightarrow> string \<Rightarrow> path" where
  "joinpath p other =
     (let q = path_of_str other in
      if anchor q \<noteq> [] then q else Path (anchor p) (parts p @ parts q))"

text \<open>
  \<open>path.suffix\<close>: with \<open>i = name.rfind(".")\<close>, the suffix is \<open>name[i:]\<close> when
  \<open>0 < i < len(name) - 1\<close> and empty otherwise.
\<close>

fun rfind :: "char \<Rightarrow> string \<Rightarrow> nat option" where
  "rfind c [] = None"
| "rfind c (x # xs) =
     (case rfind c xs of Some i \<Rightarrow> Some (Suc i) | None \<Rightarrow> if x = c then Some 0 else None)"

definition suffix :: "path \<Rightarrow> string" where
  "suffix p =
     (case rfind (CHR ''.'') (name p) of
        None \<Rightarrow> []
      | Some i \<Rightarrow> if 0 < i \<and> Suc i < length (name p) then drop i (name p) else [])"

text \<open>\<open>str.lower()\<close> on the code points below 256: 65 to 90, 192 to 214 and 216 to 222 move up by 32.\<close>

definition lower_char :: "char \<Rightarrow> char" where
  "lower_char c =
     (let n = (of_char c :: nat) in
      if (65 \<le> n \<and> n \<le> 90) \<or> (192 \<le> n \<and> n \<le> 222 \<and> n \<noteq> 215) then char_of (n + 32) else c)"

definition lower :: "string \<Rightarrow> string" where
  "lower s = map lower_char s"

definition SUPPORTED_EXTS :: "string set" where
  "SUPPORTED_EXTS = {''.mp3'', ''.wav'', ''.m4a'', ''.mp4'', ''.aac'', ''.flac'', ''.ogg''}"

section \<open>Formatting the output file name\<close>

text \<open>The decimal rendering of the index in \<open>f"Call{idx}_{timestamp_str}.txt"\<close>.\<close>

definition digit_char :: "nat \<Rightarrow> char" where
  "digit_char d = ''0123456789'' ! (d mod 10)"

fun str_nat :: "nat \<Rightarrow> string" where
  "str_nat n = (if n < 10 then [digit_char n] else str_nat (n div 10) @ [digit_char (n mod 10)])"

declare str_nat.simps [simp del]

text \<open>
  \<open>datetime.now()\<close> has an hour below 24, a minute and a second below 60;
  \<open>strftime("%H%M%S")\<close> renders each with two digits.
\<close>

record clock_time =
  hour :: nat
  minute :: nat
  second :: nat

definition valid_time :: "clock_time \<Rightarrow> bool" where
  "valid_time t = (hour t < 24 \<and> minute t < 60 \<and> second t < 60)"

definition two_digits :: "nat \<Rightarrow> string" where
  "two_digits n = (if n < 10 then ''0'' @ str_nat n else str_nat n)"

definition strftime_HMS :: "clock_time \<Rightarrow> string" where
  "strftime_HMS t = two_digits (hour t) @ two_digits (minute t) @ two_digits (second t)"

definition out_name :: "nat \<Rightarrow> string \<Rightarrow> string" where
  "out_name idx timestamp_str = ''Call'' @ str_nat idx @ ''_'' @ timestamp_str @ ''.txt''"

section \<open>The file system the worker writes to\<close>

text \<open>
  A text file is recorded with the encoding it was opened with and the text written to it.
  The file system holds the directories and the files by path.
\<close>

record text_file =
  encoding :: string
  content :: string

record filesys =
  dirs :: "path set"
  files :: "path \<rightharpoonup> text_file"

text \<open>\<open>path.mkdir(parents=True, exist_ok=True)\<close>, when it does not raise.\<close>

definition mkdir_parents :: "filesys \<Rightarrow> path \<Rightarrow> filesys" where
  "mkdir_parents fs p =
     fs\<lparr>dirs := dirs fs \<union> set (map (\<lambda>k. Path (anchor p) (take k (parts p))) [0..<Suc (length (parts p))])\<rparr>"

text \<open>What \<open>f.write(line + "\n\n")\<close> appends for one line.\<close>

definition line_text :: "string \<Rightarrow> string" where
  "line_text line = line @ [CHR 0x0A, CHR 0x0A]"

section \<open>The environment of a run\<close>

text \<open>
  Everything the worker obtains from outside the program during one run: the float
  arithmetic of the machine, the engine
  (loading the model, transcribing the file at a position of the snapshot), the clock, and
  the failures of the file system operations, each for the position \<open>idx\<close> of the file
  being processed. \<open>transcribe\<close> returns the segment generator and \<open>info.duration\<close>, which
  may be absent. \<open>write_raises idx = Some (k, e)\<close> says that writing line \<open>k\<close> (from 0) raises
  \<open>e\<close>, if there is such a line.
\<close>

record run_env =
  float_ops :: float_ops
  load_model_raises :: "exn option"
  transcribe :: "nat \<Rightarrow> string \<Rightarrow> exn + (seg_stream \<times> real option)"
  time_run_start :: real
  time_run_end :: real
  time_file_start :: "nat \<Rightarrow> real"
  time_file_end :: "nat \<Rightarrow> real"
  datetime_now :: "nat \<Rightarrow> clock_time"
  mkdir_raises :: "nat \<Rightarrow> exn option"
  open_raises :: "nat \<Rightarrow> exn option"
  write_raises :: "nat \<Rightarrow> (nat \<times> exn) option"

section \<open>The controller state\<close>

text \<open>
  The fields of \<open>TranscriberApp\<close> that the handlers and the worker compute with. The
  widgets (labels, progress bars, buttons) only display these and are left out.
\<close>

record app =
  queue :: "event list"
  audio_files :: "path list"
  worker_files :: "path list"
  total_files :: nat
  files_done :: nat
  output_dir :: path
  is_transcribing :: bool

section \<open>The worker: \<open>worker_transcribe_all\<close>\<close>

text \<open>
  \<^verbatim>\<open>
  with out_path.open("w", encoding="utf-8") as f:
      for line in lines:
          f.write(line + "\n\n")
  \<close>
  Opening truncates or creates the file; a write that raises leaves the lines written
  before it.
\<close>

definition put_file :: "filesys \<Rightarrow> path \<Rightarrow> string list \<Rightarrow> filesys" where
  "put_file fs out_path lines =
     fs\<lparr>files := (files fs)(out_path \<mapsto>
          \<lparr>encoding = ''utf-8'', content = concat (map line_text lines)\<rparr>)\<rparr>"

definition write_transcript ::
  "run_env \<Rightarrow> filesys \<Rightarrow> nat \<Rightarrow> path \<Rightarrow> string list \<Rightarrow> filesys \<times> exn option" where
  "write_transcript env fs idx out_path lines =
     (case open_raises env idx of
        Some e \<Rightarrow> (fs, Some e)
      | None \<Rightarrow>
          (case write_raises env idx of
             None \<Rightarrow> (put_file fs out_path lines, None)
           | Some (k, e) \<Rightarrow>
               if k < length lines then (put_file fs out_path (take k lines), Some e)
               else (put_file fs out_path lines, None)))"

text \<open>\<open>out_path = self.output_dir / out_name\<close> for the file at position \<open>idx\<close>.\<close>

definition out_path_of :: "app \<Rightarrow> run_env \<Rightarrow> nat \<Rightarrow> path" where
  "out_path_of a env idx =
     joinpath (output_dir a) (out_name idx (strftime_HMS (datetime_now env idx)))"

text \<open>
  The part of the loop body after the segment loop: time stamp, output path, creation of
  the output directory, writing, and the \<open>file_done\<close> event.
\<close>

definition finish_file ::
  "app \<Rightarrow> run_env \<Rightarrow> filesys \<Rightarrow> nat \<Rightarrow> path \<Rightarrow> string list \<Rightarrow> event list \<times> filesys \<times> exn option" where
  "finish_file a env fs idx audio_path lines =
     (let out_path = out_path_of a env idx in
      case mkdir_raises env idx of
        Some e \<Rightarrow> ([], fs, Some e)
      | None \<Rightarrow>
          (case write_transcript env (mkdir_parents fs (output_dir a)) idx out_path lines of
             (fs', Some e) \<Rightarrow> ([], fs', Some e)
           | (fs', None) \<Rightarrow>
               ([FileDone idx (total_files a) (name audio_path) (str_path out_path)
                   (fsub (float_ops env) (time_file_end env idx) (time_file_start env idx))], fs', None)))"

text \<open>
  One iteration of \<open>for idx, audio_path in enumerate(self.worker_files, start=1)\<close>: the
  events put on the queue, the file system afterwards, and the exception that ended the
  iteration, if any.
\<close>

definition process_file ::
  "app \<Rightarrow> run_env \<Rightarrow> filesys \<Rightarrow> nat \<Rightarrow> path \<Rightarrow> event list \<times> filesys \<times> exn option" where
  "process_file a env fs idx audio_path =
     (let started = FileStart idx (total_files a) (name audio_path) in
      case transcribe env idx (str_path audio_path) of
        Inl e \<Rightarrow> ([started], fs, Some e)
      | Inr (segments, info_duration) \<Rightarrow>
          (case consume_segments (float_ops env) (duration_or_zero info_duration) segments of
             (lines, seg_events, Some e) \<Rightarrow> (started # seg_events, fs, Some e)
           | (lines, seg_events, None) \<Rightarrow>
               (case finish_file a env fs idx audio_path lines of
                  (done_events, fs', r) \<Rightarrow> (started # seg_events @ done_events, fs', r))))"

fun transcribe_files ::
  "app \<Rightarrow> run_env \<Rightarrow> filesys \<Rightarrow> nat \<Rightarrow> path list \<Rightarrow> event list \<times> filesys \<times> exn option" where
  "transcribe_files a env fs idx [] = ([], fs, None)"
| "transcribe_files a env fs idx (audio_path # rest) =
     (case process_file a env fs idx audio_path of
        (evs, fs', Some e) \<Rightarrow> (evs, fs', Some e)
      | (evs, fs', None) \<Rightarrow>
          (case transcribe_files a env fs' (Suc idx) rest of
             (evs', fs'', r) \<Rightarrow> (evs @ evs', fs'', r)))"

text \<open>
  The body of the \<open>try\<close> block: the events put on the queue, the file system afterwards, and
  the exception that left the block, if any.
\<close>

definition worker_body :: "app \<Rightarrow> run_env \<Rightarrow> filesys \<Rightarrow> event list \<times> filesys \<times> exn option" where
  "worker_body a env fs =
     (case load_model_raises env of
        Some e \<Rightarrow> ([Status ''Loading model (small, int8 on CPU)...''], fs, Some e)
      | None \<Rightarrow>
          (case transcribe_files a env fs 1 (worker_files a) of
             (evs, fs', Some e) \<Rightarrow>
               (Status ''Loading model (small, int8 on CPU)...''
                  # Status ''Model loaded. Starting transcription...'' # evs, fs', Some e)
           | (evs, fs', None) \<Rightarrow>
               (Status ''Loading model (small, int8 on CPU)...''
                  # Status ''Model loaded. Starting transcription...''
                  # evs @ [AllDone (fsub (float_ops env) (time_run_end env) (time_run_start env))],
                fs', None)))"

text \<open>
  The whole worker, with \<open>except Exception as e: self.queue.put(("error", str(e)))\<close>:
  the events of the run in the order they are put on the queue, and the file system.
\<close>

definition worker_events :: "app \<Rightarrow> run_env \<Rightarrow> filesys \<Rightarrow> event list" where
  "worker_events a env fs =
     (case worker_body a env fs of
        (evs, fs', None) \<Rightarrow> evs
      | (evs, fs', Some e) \<Rightarrow> evs @ [Error (message e)])"



section \<open>The controller: starting a run and handling messages\<close>

text \<open>
  \<open>on_start_transcription\<close> returns the new state and whether a worker thread was
  started: nothing happens while a run is in progress or when no file is staged.
\<close>

definition on_start_transcription :: "app \<Rightarrow> app \<times> bool" where
  "on_start_transcription a =
     (if is_transcribing a then (a, False)
      else if audio_files a = [] then (a, False)
      else (a\<lparr>worker_files := audio_files a,
               total_files := length (audio_files a),
               files_done := 0,
               is_transcribing := True,
               audio_files := []\<rparr>, True))"

fun handle_message :: "app \<Rightarrow> event \<Rightarrow> app" where
  "handle_message a (Status text) = a"
| "handle_message a (FileStart idx n filename) = a"
| "handle_message a (Segment text percent) = a"
| "handle_message a (FileDone idx n filename out_path file_elapsed) =
     a\<lparr>files_done := files_done a + 1\<rparr>"
| "handle_message a (AllDone total_elapsed) = a\<lparr>is_transcribing := False\<rparr>"
| "handle_message a (Error err_text) = a\<lparr>is_transcribing := False\<rparr>"

text \<open>\<open>process_queue\<close> handles every message that is on the queue, in order.\<close>

definition process_queue :: "app \<Rightarrow> app" where
  "process_queue a = (foldl handle_message a (queue a))\<lparr>queue := []\<rparr>"

text \<open>Views of an event list.\<close>

fun is_error :: "event \<Rightarrow> bool" where
  "is_error (Error m) = True"
| "is_error ev = False"

fun start_index :: "event \<Rightarrow> nat option" where
  "start_index (FileStart idx n filename) = Some idx"
| "start_index ev = None"

fun done_index :: "event \<Rightarrow> nat option" where
  "done_index (FileDone idx n filename out_path file_elapsed) = Some idx"
| "done_index ev = None"

fun is_all_done :: "event \<Rightarrow> bool" where
  "is_all_done (AllDone t) = True"
| "is_all_done ev = False"

text \<open>
  The exception that ends the processing of the file at position \<open>idx\<close>, read off the
  environment, and the first such exception over the files from position \<open>idx\<close> on.
\<close>

definition file_raises :: "run_env \<Rightarrow> nat \<Rightarrow> path \<Rightarrow> exn option" where
  "file_raises env idx audio_path =
     (case transcribe env idx (str_path audio_path) of
        Inl e \<Rightarrow> Some e
      | Inr (segments, info_duration) \<Rightarrow>
          (case stream_raises segments of
             Some e \<Rightarrow> Some e
           | None \<Rightarrow>
               (case mkdir_raises env idx of
                  Some e \<Rightarrow> Some e
                | None \<Rightarrow>
                    (case open_raises env idx of
                       Some e \<Rightarrow> Some e
                     | None \<Rightarrow>
                         (case write_raises env idx of
                            None \<Rightarrow> None
                          | Some (k, e) \<Rightarrow>
                              if k < length (filter (\<lambda>t. t \<noteq> []) (map stripped_text (yielded segments)))
                              then Some e else None)))))"

fun first_raise :: "run_env \<Rightarrow> nat \<Rightarrow> path list \<Rightarrow> exn option" where
  "first_raise env idx [] = None"
| "first_raise env idx (audio_path # rest) =
     (case file_raises env idx audio_path of
        Some e \<Rightarrow> Some e
      | None \<Rightarrow> first_raise env (Suc idx) rest)"

text \<open>The lines the worker collects for the file at position \<open>idx\<close>, read off the engine.\<close>

definition transcript_lines :: "run_env \<Rightarrow> nat \<Rightarrow> path \<Rightarrow> string list" where
  "transcript_lines env idx audio_path =
     (case transcribe env idx (str_path audio_path) of
        Inl e \<Rightarrow> []
      | Inr (segments, info_duration) \<Rightarrow>
          filter (\<lambda>t. t \<noteq> []) (map stripped_text (yielded segments)))"

section \<open>The controller: staging files\<close>

text \<open>
  What the controller asks the file system about a path: \<open>exists()\<close>, \<open>is_dir()\<close> and
  \<open>resolve()\<close>, each of which may raise.
\<close>

record fs_view =
  path_exists :: "path \<Rightarrow> exn + bool"
  path_is_dir :: "path \<Rightarrow> exn + bool"
  path_resolve :: "path \<Rightarrow> exn + path"

text \<open>
  \<^verbatim>\<open>
  try:
      resolved = path_obj.resolve()
  except Exception:
      resolved = path_obj
  \<close>
\<close>

definition resolved_or_self :: "fs_view \<Rightarrow> path \<Rightarrow> path" where
  "resolved_or_self v path_obj = (case path_resolve v path_obj of Inl e \<Rightarrow> path_obj | Inr r \<Rightarrow> r)"

text \<open>
  \<open>any((f.resolve() if f.exists() else f) == resolved for f in self.audio_files)\<close>,
  evaluated from the left until the first match; an exception of \<open>exists\<close> or \<open>resolve\<close> is
  not caught here.
\<close>

fun already_staged :: "fs_view \<Rightarrow> path \<Rightarrow> path list \<Rightarrow> exn + bool" where
  "already_staged v resolved [] = Inr False"
| "already_staged v resolved (f # rest) =
     (case path_exists v f of
        Inl e \<Rightarrow> Inl e
      | Inr ex \<Rightarrow>
          (case (if ex then path_resolve v f else Inr f) of
             Inl e \<Rightarrow> Inl e
           | Inr key \<Rightarrow> if key = resolved then Inr True else already_staged v resolved rest))"

text \<open>
  The loop \<open>for p in filepaths\<close> of \<open>on_select_files\<close>: the staged list afterwards and the
  exception that left the loop, if any.
\<close>

fun add_files :: "fs_view \<Rightarrow> path list \<Rightarrow> path list \<Rightarrow> path list \<times> exn option" where
  "add_files v staged [] = (staged, None)"
| "add_files v staged (path_obj # rest) =
     (if lower (suffix path_obj) \<notin> SUPPORTED_EXTS then add_files v staged rest
      else (case already_staged v (resolved_or_self v path_obj) staged of
              Inl e \<Rightarrow> (staged, Some e)
            | Inr already \<Rightarrow>
                add_files v (if already then staged else staged @ [path_obj]) rest))"

text \<open>
  \<open>on_select_files\<close> with the paths returned by the file dialog. Nothing happens while a
  run is in progress or when the dialog returns no path; \<open>total_files\<close> is set after the
  loop.
\<close>

definition on_select_files :: "app \<Rightarrow> fs_view \<Rightarrow> path list \<Rightarrow> app \<times> exn option" where
  "on_select_files a v filepaths =
     (if is_transcribing a then (a, None)
      else if filepaths = [] then (a, None)
      else (case add_files v (audio_files a) filepaths of
              (staged, Some e) \<Rightarrow> (a\<lparr>audio_files := staged\<rparr>, Some e)
            | (staged, None) \<Rightarrow> (a\<lparr>audio_files := staged, total_files := length staged\<rparr>, None)))"

text \<open>A sequence of selections, each with the paths of one dialog.\<close>

fun select_all :: "app \<Rightarrow> fs_view \<Rightarrow> path list list \<Rightarrow> app" where
  "select_all a v [] = a"
| "select_all a v (filepaths # later) = select_all (fst (on_select_files a v filepaths)) v later"

section \<open>The controller as a state machine\<close>

text \<open>
  What the main thread can do between two polls of the queue: handle the next message of
  the worker, or run a handler of a user action. The buttons are disabled during a run,
  but the handlers check \<open>is_transcribing\<close> themselves.
\<close>

datatype ui_action = Handle event | SelectFiles fs_view "path list" | Start

fun ui_step :: "app \<Rightarrow> ui_action \<Rightarrow> app" where
  "ui_step a (Handle ev) = handle_message a ev"
| "ui_step a (SelectFiles v filepaths) = fst (on_select_files a v filepaths)"
| "ui_step a Start = fst (on_start_transcription a)"

text \<open>The messages handled in a sequence of actions.\<close>

fun handled :: "ui_action list \<Rightarrow> event list" where
  "handled [] = []"
| "handled (Handle ev # acts) = ev # handled acts"
| "handled (act # acts) = handled acts"

section \<open>The persisted output directory\<close>

text \<open>
  The value \<open>json.load\<close> returns. An object keeps its members in document order; in the
  dictionary built from it a later member with the same key replaces an earlier one.
\<close>

datatype json =
    JNull
  | JBool bool
  | JInt int
  | JFloat real
  | JStr string
  | JArr "json list"
  | JObj "(string \<times> json) list"

text \<open>\<open>data.get(key, dflt)\<close> on the dictionary of an object.\<close>

definition dict_get :: "(string \<times> json) list \<Rightarrow> string \<Rightarrow> json \<Rightarrow> json" where
  "dict_get members key dflt =
     (case map_of (rev members) key of None \<Rightarrow> dflt | Some v \<Rightarrow> v)"

text \<open>
  The state of the file at \<open>CONFIG_PATH\<close>: absent; present but \<open>exists\<close>, \<open>open\<close> or
  \<open>json.load\<close> raises; or present and parsed to a value.
\<close>

datatype config_file = NoFile | Unreadable exn | Parsed json

text \<open>
  The environment of \<open>load_output_dir\<close> and \<open>save_output_dir\<close>: the home directory, the
  configuration file, the file system as seen through \<open>exists\<close> and \<open>is_dir\<close>, whether
  creating the default directory raises, and whether \<open>write_text\<close> raises (and the state it
  then leaves the file in).
\<close>

record config_env =
  home :: path
  config_file :: config_file
  view :: fs_view
  downloads_mkdir_raises :: "exn option"
  write_text_raises :: "(exn \<times> config_file) option"

definition DEFAULT_DOWNLOADS_DIR :: "path \<Rightarrow> path" where
  "DEFAULT_DOWNLOADS_DIR home_dir = joinpath home_dir ''Downloads''"

text \<open>
  The \<open>try\<close> block of \<open>load_output_dir\<close>: the path it returns, or \<open>None\<close> when it falls
  through or an exception is swallowed. \<open>data.get\<close> raises on a value that is not an
  object, and \<open>Path\<close> raises on a value that is not a string.
\<close>

definition config_output_dir :: "config_env \<Rightarrow> path option" where
  "config_output_dir env =
     (case config_file env of
        NoFile \<Rightarrow> None
      | Unreadable e \<Rightarrow> None
      | Parsed data \<Rightarrow>
          (case data of
             JObj members \<Rightarrow>
               (case dict_get members ''output_dir'' (JStr []) of
                  JStr s \<Rightarrow>
                    (let out = path_of_str s in
                     case path_exists (view env) out of
                       Inl e \<Rightarrow> None
                     | Inr ex \<Rightarrow>
                         if ex then
                           (case path_is_dir (view env) out of
                              Inl e \<Rightarrow> None
                            | Inr d \<Rightarrow> if d then Some out else None)
                         else None)
                | _ \<Rightarrow> None)
           | _ \<Rightarrow> None))"

text \<open>
  \<open>load_output_dir\<close>: the configured directory, or the default one after
  \<open>DEFAULT_DOWNLOADS_DIR.mkdir(parents=True, exist_ok=True)\<close>, which is outside the \<open>try\<close>.
\<close>

definition load_output_dir :: "config_env \<Rightarrow> exn + path" where
  "load_output_dir env =
     (case config_output_dir env of
        Some out \<Rightarrow> Inr out
      | None \<Rightarrow>
          (case downloads_mkdir_raises env of
             Some e \<Rightarrow> Inl e
           | None \<Rightarrow> Inr (DEFAULT_DOWNLOADS_DIR (home env))))"

text \<open>
  \<open>save_output_dir\<close> writes \<open>{"output_dir": str(output_dir)}\<close>; an exception of the write
  is swallowed.
\<close>

definition save_output_dir :: "config_env \<Rightarrow> path \<Rightarrow> config_env" where
  "save_output_dir env dir =
     (case write_text_raises env of
        None \<Rightarrow> env\<lparr>config_file := Parsed (JObj [(''output_dir'', JStr (str_path dir))])\<rparr>
      | Some (e, left) \<Rightarrow> env\<lparr>config_file := left\<rparr>)"

section \<open>Example inputs\<close>

text \<open>
  An engine result with three segments: one with text and an end time, one that is blank,
  and one with text but no end time.
\<close>

definition ex_stream :: seg_stream where
  "ex_stream =
     SYield \<lparr>seg_text = Some '' hello '', seg_end = Some 42.5\<rparr>
       (SYield \<lparr>seg_text = Some ''   '', seg_end = Some 50\<rparr>
          (SYield \<lparr>seg_text = Some ''bye'', seg_end = None\<rparr> SEnd))"

text \<open>
  An environment in which the float operations are exact, nothing fails and the engine returns \<open>ex_stream\<close> with a duration
  of 100 seconds for every file, and one in which the engine raises for the second file.
\<close>

definition ex_ops :: float_ops where
  "ex_ops = \<lparr>fdiv = (\<lambda>x y. x / y), fmul = (\<lambda>x y. x * y), fsub = (\<lambda>x y. x - y)\<rparr>"

definition ex_env :: run_env where
  "ex_env =
     \<lparr>float_ops = ex_ops,
      load_model_raises = None,
      transcribe = (\<lambda>idx s. Inr (ex_stream, Some 100)),
      time_run_start = 0,
      time_run_end = 10,
      time_file_start = (\<lambda>idx. real idx),
      time_file_end = (\<lambda>idx. real idx + 1),
      datetime_now = (\<lambda>idx. \<lparr>hour = 9, minute = 5, second = 30\<rparr>),
      mkdir_raises = (\<lambda>idx. None),
      open_raises = (\<lambda>idx. None),
      write_raises = (\<lambda>idx. None)\<rparr>"




definition ex_fs :: filesys where
  "ex_fs = \<lparr>dirs = {}, files = Map.empty\<rparr>"

text \<open>Three staged files in an idle controller, and the state after the run is started.\<close>

definition ex_files :: "path list" where
  "ex_files =
     [Path ''/'' [''calls'', ''a.mp3''], Path ''/'' [''calls'', ''b.wav''],
      Path ''/'' [''calls'', ''c.ogg'']]"

definition ex_idle :: app where
  "ex_idle =
     \<lparr>queue = [], audio_files = ex_files, worker_files = [], total_files = 3, files_done = 0,
      output_dir = Path ''/'' [''out''], is_transcribing = False\<rparr>"

definition ex_app :: app where
  "ex_app = fst (on_start_transcription ex_idle)"

text \<open>
  A file system in which every path exists and resolves to itself, and a sequence of
  actions of the main thread during the example run: it handles the messages up to the
  \<open>file_done\<close> of the first file, and in between the handlers of the file selection and
  of the start button run.
\<close>

definition ex_view :: fs_view where
  "ex_view =
     \<lparr>path_exists = (\<lambda>p. Inr True), path_is_dir = (\<lambda>p. Inr False),
      path_resolve = (\<lambda>p. Inr p)\<rparr>"

definition ex_acts :: "ui_action list" where
  "ex_acts =
     [Handle (Status ''Loading model (small, int8 on CPU)...''),
      Handle (Status ''Model loaded. Starting transcription...''),
      SelectFiles ex_view [Path ''/'' [''calls'', ''d.mp3'']],
      Handle (FileStart 1 3 ''a.mp3''),
      Handle (Segment ''hello'' 42),
      Start,
      Handle (Segment ''bye'' 0),
      Handle (FileDone 1 3 ''a.mp3'' ''/out/Call1_090530.txt'' 1)]"

definition ex_rest :: "event list" where
  "ex_rest =
     [Segment ''hello'' 42, Segment ''bye'' 0,
      FileDone 2 3 ''b.wav'' ''/out/Call2_090530.txt'' 1,
      FileStart 3 3 ''c.ogg'', Segment ''hello'' 42, Segment ''bye'' 0,
      FileDone 3 3 ''c.ogg'' ''/out/Call3_090530.txt'' 1, AllDone 10]"

text \<open>An engine that yields only blank segments, with an unknown duration.\<close>

definition ex_blank_stream :: seg_stream where
  "ex_blank_stream =
     SYield \<lparr>seg_text = Some ''   '', seg_end = Some 1\<rparr>
       (SYield \<lparr>seg_text = None, seg_end = None\<rparr> SEnd)"

definition ex_env_blank :: run_env where
  "ex_env_blank = ex_env\<lparr>transcribe := (\<lambda>idx s. Inr (ex_blank_stream, None))\<rparr>"

text \<open>
  An idle controller with nothing staged, and a file system in which every path exists and
  the directory \<open>/link\<close> is a symbolic link to \<open>/real\<close>: \<open>resolve\<close> follows the link.
\<close>

definition ex_fresh :: app where
  "ex_fresh = ex_idle\<lparr>audio_files := [], total_files := 0\<rparr>"

definition ex_view_link :: fs_view where
  "ex_view_link =
     \<lparr>path_exists = (\<lambda>p. Inr True),
      path_is_dir = (\<lambda>p. Inr False),
      path_resolve = (\<lambda>p. Inr (case parts p of
                                   [] \<Rightarrow> p
                                 | d # rest \<Rightarrow>
                                     if d = ''link'' then Path (anchor p) (''real'' # rest) else p))\<rparr>"

text \<open>
  A configuration file that holds the JSON object \<open>{}\<close>, in a file system where the current
  directory and the home directory exist.
\<close>

definition ex_config_view :: fs_view where
  "ex_config_view =
     \<lparr>path_exists = (\<lambda>p. Inr (p = Path [] [] \<or> p = Path ''/'' [''home'', ''user''])),
      path_is_dir = (\<lambda>p. Inr (p = Path [] [] \<or> p = Path ''/'' [''home'', ''user''])),
      path_resolve = (\<lambda>p. Inr p)\<rparr>"

definition ex_config_env :: config_env where
  "ex_config_env =
     \<lparr>home = Path ''/'' [''home'', ''user''],
      config_file = Parsed (JObj []),
      view = ex_config_view,
      downloads_mkdir_raises = None,
      write_text_raises = None\<rparr>"

section \<open>The segment loop\<close>

lemma consume_events:
  "fst (snd (consume_segments ops d st)) =
     map (\<lambda>s. Segment (stripped_text s) (segment_percent ops d (seg_end s)))
       (filter (\<lambda>s. stripped_text s \<noteq> []) (yielded st))"
  by (induction st) (auto simp: Let_def split: prod.splits)

lemma consume_lines:
  "fst (consume_segments ops d st) = filter (\<lambda>t. t \<noteq> []) (map stripped_text (yielded st))"
  by (induction st) (auto simp: Let_def split: prod.splits)

lemma consume_raises:
  "snd (snd (consume_segments ops d st)) = stream_raises st"
  by (induction st) (auto simp: Let_def split: prod.splits)

lemma strip_examples:
  "strip '' hello '' = ''hello''" "strip ''   '' = []" "strip ''bye'' = ''bye''"
  by (simp_all add: strip_def isspace_def)

text \<open>
  Claim C10. When the total duration is positive, a segment whose stripped text is not
  empty and whose end time is missing gets a \<open>segment\<close> event with percentage 0.
\<close>

theorem missing_end_percent_zero:
  "0 < t \<Longrightarrow>
   list_all2 (\<lambda>s ev. seg_end s = None \<longrightarrow> ev = Segment (stripped_text s) 0)
     (filter (\<lambda>s. stripped_text s \<noteq> []) (yielded segments))
     (fst (snd (consume_segments ops (duration_or_zero (Some t)) segments)))"
  unfolding consume_events list_all2_map2
  by (rule list_all2_refl) (simp add: segment_percent_def)

theorem missing_end_percent_zero_witness:
  "(0 :: real) < 100 \<and> seg_end \<lparr>seg_text = Some ''bye'', seg_end = None\<rparr> = None \<and>
   fst (snd (consume_segments ex_ops (duration_or_zero (Some 100))
     (SYield \<lparr>seg_text = Some ''bye'', seg_end = None\<rparr> SEnd))) = [Segment ''bye'' 0]"
  using missing_end_percent_zero
    [of 100 "SYield \<lparr>seg_text = Some ''bye'', seg_end = None\<rparr> SEnd" ex_ops]
  by (simp add: stripped_text_def strip_examples duration_or_zero_def Let_def
      segment_percent_def)

section \<open>The events of one file and of the loop over the files\<close>

lemma map_filter_app: "List.map_filter f (xs @ ys) = List.map_filter f xs @ List.map_filter f ys"
  by (simp add: List.map_filter_def)

lemma consume_views:
  assumes "consume_segments ops d st = (ls, evs, r)"
  shows "List.map_filter start_index evs = []" "List.map_filter done_index evs = []"
    "filter is_error evs = []" "filter is_all_done evs = []"
proof -
  have e: "evs = map (\<lambda>s. Segment (stripped_text s) (segment_percent ops d (seg_end s)))
       (filter (\<lambda>s. stripped_text s \<noteq> []) (yielded st))"
    using consume_events [of ops d st] assms by simp
  show "List.map_filter start_index evs = []" unfolding e
    by (induction "yielded st" arbitrary: st) (simp_all add: List.map_filter_def)
  show "List.map_filter done_index evs = []" unfolding e
    by (simp add: List.map_filter_def)
  show "filter is_error evs = []" unfolding e by (simp add: filter_map o_def)
  show "filter is_all_done evs = []" unfolding e by (simp add: filter_map o_def)
qed

lemma finish_file_views:
  "List.map_filter start_index (fst (finish_file a env fs idx p ls)) = []"
  "List.map_filter done_index (fst (finish_file a env fs idx p ls)) =
     (if snd (snd (finish_file a env fs idx p ls)) = None then [idx] else [])"
  "filter is_error (fst (finish_file a env fs idx p ls)) = []"
  "filter is_all_done (fst (finish_file a env fs idx p ls)) = []"
  by (simp_all add: finish_file_def Let_def List.map_filter_simps split: option.split prod.split)

lemma finish_file_viewsD:
  assumes "finish_file a env fs idx p ls = (evs, fs', r)"
  shows "List.map_filter start_index evs = []"
    "List.map_filter done_index evs = (if r = None then [idx] else [])"
    "filter is_error evs = []" "filter is_all_done evs = []"
  using finish_file_views [of a env fs idx p ls] assms by simp_all

lemma process_file_views:
  "List.map_filter start_index (fst (process_file a env fs idx p)) = [idx]"
  "List.map_filter done_index (fst (process_file a env fs idx p)) =
     (if snd (snd (process_file a env fs idx p)) = None then [idx] else [])"
  "filter is_error (fst (process_file a env fs idx p)) = []"
  "filter is_all_done (fst (process_file a env fs idx p)) = []"
  by (auto simp: process_file_def Let_def map_filter_app List.map_filter_simps
        consume_views finish_file_viewsD split: sum.split option.split prod.split)

lemma process_file_viewsD:
  assumes "process_file a env fs idx p = (evs, fs', r)"
  shows "List.map_filter start_index evs = [idx]"
    "List.map_filter done_index evs = (if r = None then [idx] else [])"
    "filter is_error evs = []" "filter is_all_done evs = []"
  using process_file_views [of a env fs idx p] assms by simp_all

lemma transcribe_files_shape:
  "\<exists>k \<le> length ps.
     List.map_filter start_index (fst (transcribe_files a env fs idx ps)) = [idx..<idx + k] \<and>
     List.map_filter done_index (fst (transcribe_files a env fs idx ps)) =
       (if snd (snd (transcribe_files a env fs idx ps)) = None then [idx..<idx + k] else [idx..<idx + k - 1]) \<and>
     (snd (snd (transcribe_files a env fs idx ps)) = None \<longrightarrow> k = length ps) \<and>
     (snd (snd (transcribe_files a env fs idx ps)) \<noteq> None \<longrightarrow> 0 < k)"
proof (induction ps arbitrary: fs idx)
  case Nil
  then show ?case by (simp add: List.map_filter_simps)
next
  case (Cons p ps)
  obtain evs fs1 r where pf: "process_file a env fs idx p = (evs, fs1, r)"
    by (cases "process_file a env fs idx p") auto
  note v = process_file_viewsD [OF pf]
  show ?case
  proof (cases r)
    case (Some e)
    have "List.map_filter start_index evs = [idx..<idx + 1]" using v(1) by simp
    moreover have "List.map_filter done_index evs = [idx..<idx + 1 - 1]" using v(2) Some by simp
    ultimately show ?thesis using pf Some
      by (intro exI [of _ 1]) simp
  next
    case None
    obtain evs2 fs2 r2 where tf: "transcribe_files a env fs1 (Suc idx) ps = (evs2, fs2, r2)"
      by (cases "transcribe_files a env fs1 (Suc idx) ps") auto
    from Cons.IH [of fs1 "Suc idx"] obtain k where k: "k \<le> length ps"
      "List.map_filter start_index evs2 = [Suc idx..<Suc idx + k]"
      "List.map_filter done_index evs2 = (if r2 = None then [Suc idx..<Suc idx + k] else [Suc idx..<Suc idx + k - 1])"
      "r2 = None \<longrightarrow> k = length ps" "r2 \<noteq> None \<longrightarrow> 0 < k"
      unfolding tf by auto
    have s: "List.map_filter start_index (evs @ evs2) = [idx..<idx + Suc k]"
      using v(1) k(2) by (simp add: map_filter_app upt_conv_Cons)
    have d: "List.map_filter done_index (evs @ evs2) =
        (if r2 = None then [idx..<idx + Suc k] else [idx..<idx + Suc k - 1])"
      using v(2) k(3) k(5) None by (auto simp add: map_filter_app upt_conv_Cons)
    show ?thesis using pf None tf s d k(1,4)
      by (intro exI [of _ "Suc k"]) simp
  qed
qed

lemma transcribe_files_no_error:
  "filter is_error (fst (transcribe_files a env fs idx ps)) = []"
  "filter is_all_done (fst (transcribe_files a env fs idx ps)) = []"
proof -
  show "filter is_error (fst (transcribe_files a env fs idx ps)) = []"
  proof (induction ps arbitrary: fs idx)
    case (Cons p ps)
    obtain evs fs1 r where pf: "process_file a env fs idx p = (evs, fs1, r)"
      by (cases "process_file a env fs idx p") auto
    show ?case using process_file_viewsD(3) [OF pf] Cons.IH [of fs1 "Suc idx"] pf
      by (cases r) (auto split: prod.split)
  qed simp
  show "filter is_all_done (fst (transcribe_files a env fs idx ps)) = []"
  proof (induction ps arbitrary: fs idx)
    case (Cons p ps)
    obtain evs fs1 r where pf: "process_file a env fs idx p = (evs, fs1, r)"
      by (cases "process_file a env fs idx p") auto
    show ?case using process_file_viewsD(4) [OF pf] Cons.IH [of fs1 "Suc idx"] pf
      by (cases r) (auto split: prod.split)
  qed simp
qed

section \<open>The exception that ends a run\<close>

lemma write_transcript_raised:
  "snd (write_transcript env fs idx out ls) =
     (case open_raises env idx of
        Some e \<Rightarrow> Some e
      | None \<Rightarrow> (case write_raises env idx of None \<Rightarrow> None
                  | Some (k, e) \<Rightarrow> if k < length ls then Some e else None))"
  by (simp add: write_transcript_def split: option.split prod.split)

lemma finish_file_raised:
  "snd (snd (finish_file a env fs idx p ls)) =
     (case mkdir_raises env idx of
        Some e \<Rightarrow> Some e
      | None \<Rightarrow> snd (write_transcript env (mkdir_parents fs (output_dir a)) idx (out_path_of a env idx) ls))"
  by (simp add: finish_file_def Let_def split: option.split prod.split)

lemma process_file_raised:
  "snd (snd (process_file a env fs idx p)) = file_raises env idx p"
proof (cases "transcribe env idx (str_path p)")
  case (Inl e)
  then show ?thesis by (simp add: process_file_def file_raises_def)
next
  case (Inr res)
  obtain segs d where res: "res = (segs, d)" by (cases res)
  let ?L = "filter (\<lambda>t. t \<noteq> []) (map stripped_text (yielded segs))"
  let ?C = "consume_segments (float_ops env) (duration_or_zero d) segs"
  obtain E where c: "?C = (?L, E, stream_raises segs)"
    by (metis consume_lines consume_raises prod.collapse)
  show ?thesis
  proof (cases "stream_raises segs")
    case (Some e)
    show ?thesis by (simp add: process_file_def file_raises_def Inr res c Some)
  next
    case None
    have f: "snd (snd (finish_file a env fs idx p ?L)) =
      (case mkdir_raises env idx of
        Some e \<Rightarrow> Some e
      | None \<Rightarrow> (case open_raises env idx of
        Some e \<Rightarrow> Some e
      | None \<Rightarrow> (case write_raises env idx of None \<Rightarrow> None
                  | Some (k, e) \<Rightarrow> if k < length ?L then Some e else None)))"
      by (simp add: finish_file_raised write_transcript_raised split: option.split)
    have "snd (snd (process_file a env fs idx p)) = snd (snd (finish_file a env fs idx p ?L))"
      by (simp add: process_file_def Inr res c None split: prod.split)
    then show ?thesis unfolding f by (simp add: file_raises_def Inr res None)
  qed
qed

lemma transcribe_files_raised:
  "snd (snd (transcribe_files a env fs idx ps)) = first_raise env idx ps"
proof (induction ps arbitrary: fs idx)
  case Nil
  then show ?case by simp
next
  case (Cons p ps)
  obtain evs fs1 r where pf: "process_file a env fs idx p = (evs, fs1, r)"
    by (cases "process_file a env fs idx p") auto
  have r: "r = file_raises env idx p" using process_file_raised [of a env fs idx p] pf by simp
  have pf': "process_file a env fs idx p = (evs, fs1, file_raises env idx p)" using pf r by simp
  show ?case using pf' Cons.IH [of fs1 "Suc idx"]
    by (cases "file_raises env idx p") (auto split: prod.split)
qed

lemma worker_body_raised:
  "snd (snd (worker_body a env fs)) =
     (case load_model_raises env of Some e \<Rightarrow> Some e | None \<Rightarrow> first_raise env 1 (worker_files a))"
proof (cases "load_model_raises env")
  case (Some e)
  then show ?thesis by (simp add: worker_body_def)
next
  case None
  obtain evs fs1 r where tf: "transcribe_files a env fs 1 (worker_files a) = (evs, fs1, r)"
    by (cases "transcribe_files a env fs 1 (worker_files a)") auto
  have "r = first_raise env 1 (worker_files a)"
    using transcribe_files_raised [of a env fs 1 "worker_files a"] tf by simp
  then have "transcribe_files a env fs 1 (worker_files a) = (evs, fs1, first_raise env 1 (worker_files a))"
    using tf by simp
  then show ?thesis using None
    by (cases "first_raise env 1 (worker_files a)") (simp_all add: worker_body_def)
qed

section \<open>The events of a run, with and without an exception\<close>

lemma worker_body_shape:
  "filter is_error (fst (worker_body a env fs)) = [] \<and>
   (snd (snd (worker_body a env fs)) \<noteq> None \<longrightarrow> filter is_all_done (fst (worker_body a env fs)) = []) \<and>
   (\<exists>k \<le> length (worker_files a).
      List.map_filter start_index (fst (worker_body a env fs)) = [1..<Suc k] \<and>
      List.map_filter done_index (fst (worker_body a env fs)) =
        (if snd (snd (worker_body a env fs)) = None then [1..<Suc k] else [1..<k]) \<and>
      (snd (snd (worker_body a env fs)) = None \<longrightarrow> k = length (worker_files a)))"
proof (cases "load_model_raises env")
  case (Some e)
  then show ?thesis
    by (auto simp: worker_body_def List.map_filter_simps intro!: exI [of _ 0])
next
  case None
  obtain evs fs1 r where tf: "transcribe_files a env fs 1 (worker_files a) = (evs, fs1, r)"
    by (cases "transcribe_files a env fs 1 (worker_files a)") auto
  from transcribe_files_shape [of "worker_files a" a env fs 1] obtain k where
    k: "k \<le> length (worker_files a)"
       "List.map_filter start_index evs = [1..<1 + k]"
       "List.map_filter done_index evs = (if r = None then [1..<1 + k] else [1..<1 + k - 1])"
       "r = None \<longrightarrow> k = length (worker_files a)"
    unfolding tf by auto
  have ne: "filter is_error evs = []" "filter is_all_done evs = []"
    using transcribe_files_no_error [of a env fs 1 "worker_files a"] tf by simp_all
  show ?thesis
  proof (cases r)
    case rn: None
    have wb: "worker_body a env fs =
      (Status ''Loading model (small, int8 on CPU)...''
                  # Status ''Model loaded. Starting transcription...''
                  # evs @ [AllDone (fsub (float_ops env) (time_run_end env) (time_run_start env))], fs1, None)"
      using None tf rn by (simp add: worker_body_def)
    show ?thesis unfolding wb using k ne rn
      by (auto simp: List.map_filter_simps map_filter_app)
  next
    case (Some e)
    have wb: "worker_body a env fs =
      (Status ''Loading model (small, int8 on CPU)...''
                  # Status ''Model loaded. Starting transcription...'' # evs, fs1, Some e)"
      using None tf Some by (simp add: worker_body_def)
    show ?thesis unfolding wb using k ne Some
      by (auto simp: List.map_filter_simps map_filter_app)
  qed
qed

lemma worker_events_raised:
  "snd (snd (worker_body a env fs)) = Some e \<Longrightarrow>
   worker_events a env fs = fst (worker_body a env fs) @ [Error (message e)]"
  by (cases "worker_body a env fs") (auto simp: worker_events_def)

lemma worker_events_ok:
  "snd (snd (worker_body a env fs)) = None \<Longrightarrow>
   worker_events a env fs = fst (worker_body a env fs)"
  by (cases "worker_body a env fs") (auto simp: worker_events_def)

lemma ex_app_fields:
  "worker_files ex_app = ex_files" "total_files ex_app = 3" "files_done ex_app = 0"
  "output_dir ex_app = Path ''/'' [''out'']" "is_transcribing ex_app"
  by (simp_all add: ex_app_def ex_idle_def ex_files_def on_start_transcription_def)

lemma ex_stream_raises: "stream_raises ex_stream = None"
  by (simp add: ex_stream_def)

lemma ex_env_load: "load_model_raises ex_env = None"
  by (simp add: ex_env_def)

lemma ex_env_file_raises: "file_raises ex_env idx p = None"
  by (simp add: file_raises_def ex_env_def ex_stream_raises)


section \<open>The run counters\<close>

lemma worker_events_final:
  "\<exists>pre fin. worker_events a env fs = pre @ [fin] \<and> filter is_error pre = [] \<and>
     filter is_all_done pre = [] \<and>
     List.map_filter done_index (worker_events a env fs) = List.map_filter done_index pre"
proof (cases "snd (snd (worker_body a env fs))")
  case (Some e)
  have "worker_events a env fs = fst (worker_body a env fs) @ [Error (message e)]"
    by (rule worker_events_raised [OF Some])
  moreover have "filter is_error (fst (worker_body a env fs)) = []"
    "filter is_all_done (fst (worker_body a env fs)) = []"
    using worker_body_shape [of a env fs] Some by simp_all
  ultimately show ?thesis
    by (intro exI [of _ "fst (worker_body a env fs)"] exI [of _ "Error (message e)"])
      (simp add: map_filter_app List.map_filter_simps)
next
  case None
  show ?thesis
  proof (cases "load_model_raises env")
    case (Some e)
    then show ?thesis using None by (simp add: worker_body_def)
  next
    case lm: None
    obtain evs fs1 r where tf: "transcribe_files a env fs 1 (worker_files a) = (evs, fs1, r)"
      by (cases "transcribe_files a env fs 1 (worker_files a)") auto
    have r: "r = None" using None lm tf by (cases r) (simp_all add: worker_body_def)
    have ne: "filter is_error evs = []" "filter is_all_done evs = []"
      using transcribe_files_no_error [of a env fs 1 "worker_files a"] tf by simp_all
    have "worker_events a env fs =
      (Status ''Loading model (small, int8 on CPU)...''
         # Status ''Model loaded. Starting transcription...'' # evs)
      @ [AllDone (fsub (float_ops env) (time_run_end env) (time_run_start env))]"
      using lm tf r by (simp add: worker_events_def worker_body_def)
    then show ?thesis using ne
      by (intro exI [of _ "Status ''Loading model (small, int8 on CPU)...''
         # Status ''Model loaded. Starting transcription...'' # evs"]
          exI [of _ "AllDone (fsub (float_ops env) (time_run_end env) (time_run_start env))"])
        (simp add: map_filter_app List.map_filter_simps)
  qed
qed

lemma worker_done_count:
  "length (List.map_filter done_index (worker_events a env fs)) \<le> length (worker_files a)"
proof -
  from worker_body_shape [of a env fs] obtain k where k: "k \<le> length (worker_files a)"
    "List.map_filter done_index (fst (worker_body a env fs)) =
        (if snd (snd (worker_body a env fs)) = None then [1..<Suc k] else [1..<k])"
    by blast
  show ?thesis
  proof (cases "snd (snd (worker_body a env fs))")
    case None
    then show ?thesis using k by (simp add: worker_events_ok)
  next
    case (Some e)
    then show ?thesis using k
      by (simp add: worker_events_raised [OF Some] map_filter_app List.map_filter_simps)
  qed
qed

lemma map_filter_length_prefix:
  "length (List.map_filter f xs) \<le> length (List.map_filter f (xs @ ys))"
  by (simp add: map_filter_app)

lemma handle_message_fields:
  "total_files (handle_message b ev) = total_files b"
  "worker_files (handle_message b ev) = worker_files b"
  "files_done (handle_message b ev) = files_done b + length (List.map_filter done_index [ev])"
  "\<not> is_error ev \<Longrightarrow> \<not> is_all_done ev \<Longrightarrow> is_transcribing (handle_message b ev) = is_transcribing b"
  by (cases ev; simp add: List.map_filter_simps)+

lemma busy_handlers:
  "is_transcribing b \<Longrightarrow> on_select_files b v filepaths = (b, None)"
  "is_transcribing b \<Longrightarrow> on_start_transcription b = (b, False)"
  by (simp_all add: on_select_files_def on_start_transcription_def)

lemma ui_run_invariant:
  "is_transcribing b \<Longrightarrow> filter is_error (handled acts) = [] \<Longrightarrow>
   filter is_all_done (handled acts) = [] \<Longrightarrow>
   is_transcribing (foldl ui_step b acts) \<and>
   total_files (foldl ui_step b acts) = total_files b \<and>
   worker_files (foldl ui_step b acts) = worker_files b \<and>
   files_done (foldl ui_step b acts) = files_done b + length (List.map_filter done_index (handled acts))"
proof (induction acts arbitrary: b)
  case Nil
  then show ?case by (simp add: List.map_filter_simps)
next
  case (Cons act acts)
  show ?case
  proof (cases act)
    case (Handle ev)
    have ev: "\<not> is_error ev" "\<not> is_all_done ev"
      using Cons.prems Handle by (auto split: if_splits)
    have t: "is_transcribing (handle_message b ev)"
      using handle_message_fields(4) [OF ev] Cons.prems(1) by simp
    have f: "filter is_error (handled acts) = []" "filter is_all_done (handled acts) = []"
      using Cons.prems Handle by (auto split: if_splits)
    show ?thesis using Cons.IH [OF t f] Handle
      by (simp add: handle_message_fields(1-3) List.map_filter_simps split: option.split)
  next
    case (SelectFiles v ps)
    then show ?thesis using Cons.IH [of b] Cons.prems by (simp add: busy_handlers)
  next
    case Start
    then show ?thesis using Cons.IH [of b] Cons.prems by (simp add: busy_handlers)
  qed
qed

lemma on_start_fields:
  assumes "on_start_transcription a0 = (a, True)"
  shows "files_done a = 0" "total_files a = length (worker_files a)" "is_transcribing a"
    "worker_files a = audio_files a0" "audio_files a = []" "output_dir a = output_dir a0"
    "worker_files a \<noteq> []"
  using assms by (auto simp: on_start_transcription_def split: if_splits)

text \<open>
  Claim C6. A run is started by \<open>on_start_transcription\<close>, which sets \<open>files_done\<close> to 0
  and \<open>total_files\<close> to the length of the snapshot. At every point of the run, that is
  after any sequence of actions of the main thread whose handled messages are an initial
  part of the worker's events with at least one event still to come, the run is still in
  progress, \<open>total_files\<close> is the length of the snapshot, \<open>files_done\<close> is the number of
  \<open>file_done\<close> events handled and does not exceed \<open>total_files\<close>, also after the next
  event is handled; the worker emits at most one \<open>file_done\<close> per element of the snapshot.
\<close>

theorem files_done_bounded:
  assumes start: "on_start_transcription a0 = (a, True)"
    and run: "handled acts @ ev # rest = worker_events a env fs"
  shows "files_done a = 0 \<and> total_files a = length (worker_files a)
    \<and> is_transcribing (foldl ui_step a acts)
    \<and> total_files (foldl ui_step a acts) = length (worker_files a)
    \<and> files_done (foldl ui_step a acts) = length (List.map_filter done_index (handled acts))
    \<and> files_done (foldl ui_step a acts) \<le> total_files (foldl ui_step a acts)
    \<and> files_done (handle_message (foldl ui_step a acts) ev)
         \<le> total_files (handle_message (foldl ui_step a acts) ev)
    \<and> length (List.map_filter done_index (worker_events a env fs)) \<le> length (worker_files a)"
proof -
  note s = on_start_fields [OF start]
  from worker_events_final [of a env fs] obtain pre fin where
    w: "worker_events a env fs = pre @ [fin]" "filter is_error pre = []" "filter is_all_done pre = []"
    by blast
  have "handled acts @ ev # rest = pre @ [fin]" using run w(1) by simp
  then obtain us where us: "pre = handled acts @ us"
    by (cases rest rule: rev_cases) (auto simp: append_eq_append_conv2 Cons_eq_append_conv)
  have clean: "filter is_error (handled acts) = []" "filter is_all_done (handled acts) = []"
    using w(2,3) us by simp_all
  note inv = ui_run_invariant [OF s(3) clean]
  let ?b = "foldl ui_step a acts"
  have fd: "files_done ?b = length (List.map_filter done_index (handled acts))"
    using inv s(1) by simp
  have tot: "total_files ?b = length (worker_files a)" using inv s(2) by simp
  have "length (List.map_filter done_index (handled acts @ [ev]))
      \<le> length (List.map_filter done_index ((handled acts @ [ev]) @ rest))"
    by (rule map_filter_length_prefix)
  also have "\<dots> = length (List.map_filter done_index (worker_events a env fs))"
    using run by simp
  also have "\<dots> \<le> length (worker_files a)" by (rule worker_done_count)
  finally have bound: "length (List.map_filter done_index (handled acts @ [ev])) \<le> length (worker_files a)" .
  have b1: "files_done ?b \<le> total_files ?b"
    using bound fd tot by (simp add: map_filter_app)
  have b2: "files_done (handle_message ?b ev) \<le> total_files (handle_message ?b ev)"
    using bound fd tot by (simp add: handle_message_fields map_filter_app)
  show ?thesis using s(1,2) inv fd tot b1 b2 worker_done_count [of a env fs] by simp
qed

section \<open>The example run\<close>

lemma ex_consume:
  "consume_segments ex_ops 100 ex_stream =
     ([''hello'', ''bye''], [Segment ''hello'' 42, Segment ''bye'' 0], None)"
  by (simp add: ex_stream_def stripped_text_def strip_examples Let_def segment_percent_def
      py_int_def py_min_def py_max_def ex_ops_def)

lemma ex_out_path:
  "out_path_of ex_app ex_env 1 = Path ''/'' [''out'', ''Call1_090530.txt'']"
  "out_path_of ex_app ex_env 2 = Path ''/'' [''out'', ''Call2_090530.txt'']"
  "out_path_of ex_app ex_env 3 = Path ''/'' [''out'', ''Call3_090530.txt'']"
  by (simp_all add: out_path_of_def ex_app_fields ex_env_def out_name_def strftime_HMS_def
      two_digits_def digit_char_def joinpath_def path_of_str_def str_nat.simps)

lemma ex_process_file_events:
  "fst (process_file ex_app ex_env fs idx p) =
     [FileStart idx 3 (name p), Segment ''hello'' 42, Segment ''bye'' 0,
      FileDone idx 3 (name p) (str_path (out_path_of ex_app ex_env idx)) 1]"
   "snd (snd (process_file ex_app ex_env fs idx p)) = None"
proof -
  have e: "transcribe ex_env idx (str_path p) = Inr (ex_stream, Some 100)"
    "mkdir_raises ex_env idx = None" "open_raises ex_env idx = None"
    "write_raises ex_env idx = None" "float_ops ex_env = ex_ops"
    "fsub ex_ops (time_file_end ex_env idx) (time_file_start ex_env idx) = 1"
    by (simp_all add: ex_env_def ex_ops_def)
  show "snd (snd (process_file ex_app ex_env fs idx p)) = None"
    by (simp add: process_file_raised ex_env_file_raises)
  show "fst (process_file ex_app ex_env fs idx p) =
     [FileStart idx 3 (name p), Segment ''hello'' 42, Segment ''bye'' 0,
      FileDone idx 3 (name p) (str_path (out_path_of ex_app ex_env idx)) 1]"
    by (simp add: process_file_def e duration_or_zero_def ex_consume finish_file_def
        write_transcript_def ex_app_fields Let_def)
qed

lemma ex_process_file:
  "process_file ex_app ex_env fs idx p =
      ([FileStart idx 3 (name p), Segment ''hello'' 42, Segment ''bye'' 0,
        FileDone idx 3 (name p) (str_path (out_path_of ex_app ex_env idx)) 1],
       fst (snd (process_file ex_app ex_env fs idx p)), None)"
proof -
  obtain evs fs1 r where pf: "process_file ex_app ex_env fs idx p = (evs, fs1, r)"
    by (cases "process_file ex_app ex_env fs idx p") auto
  show ?thesis using ex_process_file_events [where fs = fs and idx = idx and p = p]
    unfolding pf by simp
qed

lemma transcribe_files_Cons_ok:
  "process_file a env fs idx p = (evs, fs1, None) \<Longrightarrow>
   fst (transcribe_files a env fs idx (p # ps)) =
     evs @ fst (transcribe_files a env fs1 (Suc idx) ps)"
  by (simp split: prod.split)

lemma ex_transcribe_files_events:
  "fst (transcribe_files ex_app ex_env fs idx ps) =
     concat (map (\<lambda>(i, p).
         [FileStart i 3 (name p), Segment ''hello'' 42, Segment ''bye'' 0,
          FileDone i 3 (name p) (str_path (out_path_of ex_app ex_env i)) 1])
       (zip [idx..<idx + length ps] ps))"
proof (induction ps arbitrary: fs idx)
  case Nil
  then show ?case by simp
next
  case (Cons p ps)
  have u: "[idx..<idx + length (p # ps)] = idx # [Suc idx..<Suc idx + length ps]"
    using upt_conv_Cons [of idx "idx + length (p # ps)"] by simp
  show ?case
    unfolding transcribe_files_Cons_ok [OF ex_process_file] Cons.IH u
    by (simp only: zip_Cons_Cons list.map prod.case concat.simps append.simps)
qed

lemma ex_transcribe_files:
  "fst (transcribe_files ex_app ex_env fs 1 ex_files) =
     [FileStart 1 3 ''a.mp3'', Segment ''hello'' 42, Segment ''bye'' 0,
      FileDone 1 3 ''a.mp3'' ''/out/Call1_090530.txt'' 1,
      FileStart 2 3 ''b.wav'', Segment ''hello'' 42, Segment ''bye'' 0,
      FileDone 2 3 ''b.wav'' ''/out/Call2_090530.txt'' 1,
      FileStart 3 3 ''c.ogg'', Segment ''hello'' 42, Segment ''bye'' 0,
      FileDone 3 3 ''c.ogg'' ''/out/Call3_090530.txt'' 1]"
proof -
  have u: "[1..<1 + length ex_files] = [1, 2, 3]"
    by (simp add: ex_files_def upt_conv_Cons)
  have o: "str_path (out_path_of ex_app ex_env 1) = ''/out/Call1_090530.txt''"
    "str_path (out_path_of ex_app ex_env 2) = ''/out/Call2_090530.txt''"
    "str_path (out_path_of ex_app ex_env 3) = ''/out/Call3_090530.txt''"
    unfolding ex_out_path by (simp_all add: str_path_def)
  have n: "name (Path ''/'' [''calls'', ''a.mp3'']) = ''a.mp3''"
    "name (Path ''/'' [''calls'', ''b.wav'']) = ''b.wav''"
    "name (Path ''/'' [''calls'', ''c.ogg'']) = ''c.ogg''"
    by (simp_all add: name_def)
  show ?thesis
    unfolding ex_transcribe_files_events u
    by (simp only: ex_files_def zip_Cons_Cons zip_Nil list.map prod.case concat.simps
        append.simps o n)
qed

lemma ex_worker_events:
  "worker_events ex_app ex_env ex_fs =
     [Status ''Loading model (small, int8 on CPU)...'',
      Status ''Model loaded. Starting transcription...'',
      FileStart 1 3 ''a.mp3'', Segment ''hello'' 42, Segment ''bye'' 0,
      FileDone 1 3 ''a.mp3'' ''/out/Call1_090530.txt'' 1,
      FileStart 2 3 ''b.wav'', Segment ''hello'' 42, Segment ''bye'' 0,
      FileDone 2 3 ''b.wav'' ''/out/Call2_090530.txt'' 1,
      FileStart 3 3 ''c.ogg'', Segment ''hello'' 42, Segment ''bye'' 0,
      FileDone 3 3 ''c.ogg'' ''/out/Call3_090530.txt'' 1, AllDone 10]"
proof -
  have ok: "snd (snd (worker_body ex_app ex_env ex_fs)) = None"
    by (simp add: worker_body_raised ex_app_fields ex_files_def ex_env_file_raises ex_env_load)
  obtain evs fs1 r where tf: "transcribe_files ex_app ex_env ex_fs 1 ex_files = (evs, fs1, r)"
    by (cases "transcribe_files ex_app ex_env ex_fs 1 ex_files") auto
  have r: "r = None"
    using transcribe_files_raised [of ex_app ex_env ex_fs 1 ex_files] tf
    by (simp add: ex_files_def ex_env_file_raises)
  have evs: "evs = fst (transcribe_files ex_app ex_env ex_fs 1 ex_files)" using tf by simp
  have t: "fsub (float_ops ex_env) (time_run_end ex_env) (time_run_start ex_env) = 10"
    by (simp add: ex_env_def ex_ops_def)
  have "fst (worker_body ex_app ex_env ex_fs) =
      Status ''Loading model (small, int8 on CPU)...''
        # Status ''Model loaded. Starting transcription...'' # evs @ [AllDone 10]"
    unfolding worker_body_def ex_env_load ex_app_fields tf r t
    by (simp only: option.case prod.case fst_conv)
  then show ?thesis
    unfolding worker_events_ok [OF ok] evs ex_transcribe_files
    by (simp only: append.simps)
qed

theorem files_done_bounded_witness:
  "on_start_transcription ex_idle = (ex_app, True)
   \<and> handled ex_acts @ FileStart 2 3 ''b.wav'' # ex_rest = worker_events ex_app ex_env ex_fs
   \<and> is_transcribing (foldl ui_step ex_app ex_acts)
   \<and> files_done (foldl ui_step ex_app ex_acts) = 1
   \<and> total_files (foldl ui_step ex_app ex_acts) = 3
   \<and> files_done (foldl ui_step ex_app ex_acts) \<le> total_files (foldl ui_step ex_app ex_acts)"
proof -
  have h1: "on_start_transcription ex_idle = (ex_app, True)"
    by (simp add: ex_app_def on_start_transcription_def ex_idle_def ex_files_def)
  have h2: "handled ex_acts @ FileStart 2 3 ''b.wav'' # ex_rest = worker_events ex_app ex_env ex_fs"
    by (simp add: ex_acts_def ex_rest_def ex_worker_events)
  have d: "length (List.map_filter done_index (handled ex_acts)) = 1"
    by (simp add: ex_acts_def List.map_filter_simps)
  show ?thesis
    using files_done_bounded [OF h1 h2] h1 h2 d by (simp add: ex_app_fields)
qed

section \<open>The output path\<close>

lemma split_slash_no_slash: "CHR ''/'' \<notin> set s \<Longrightarrow> split_slash s = [s]"
  by (induction s) auto

lemma path_of_str_component:
  "CHR ''/'' \<notin> set s \<Longrightarrow> s \<noteq> [] \<Longrightarrow> s \<noteq> ''.'' \<Longrightarrow> path_of_str s = Path [] [s]"
  by (cases s) (auto simp: path_of_str_def split_slash_no_slash)

lemma digit_char_in: "digit_char d \<in> set ''0123456789''"
  unfolding digit_char_def by (rule nth_mem) simp

lemma digit_char_inj: "a < 10 \<Longrightarrow> b < 10 \<Longrightarrow> digit_char a = digit_char b \<Longrightarrow> a = b"
proof -
  assume a: "a < 10" and b: "b < 10" and e: "digit_char a = digit_char b"
  have d: "distinct ''0123456789''" by simp
  have "''0123456789'' ! a = ''0123456789'' ! b" using e a b by (simp add: digit_char_def)
  then show "a = b" using d a b by (simp add: nth_eq_iff_index_eq)
qed

lemma str_nat_digits: "set (str_nat n) \<subseteq> set ''0123456789''"
proof (induction n rule: str_nat.induct)
  case (1 n)
  show ?case
  proof (cases "n < 10")
    case True
    then show ?thesis using digit_char_in [of n] by (subst str_nat.simps) simp
  next
    case False
    then show ?thesis using "1.IH" digit_char_in [of "n mod 10"]
      by (subst str_nat.simps) simp
  qed
qed

lemma str_nat_nonempty: "str_nat n \<noteq> []"
  by (subst str_nat.simps) simp

lemma str_nat_small: "n < 10 \<Longrightarrow> str_nat n = [digit_char n]"
  by (subst str_nat.simps) simp

lemma str_nat_length_one: "length (str_nat n) = Suc 0 \<longleftrightarrow> n < 10"
  using str_nat_nonempty [of "n div 10"] by (subst str_nat.simps) auto

lemma str_nat_inj: "str_nat n = str_nat m \<Longrightarrow> n = m"
proof (induction n arbitrary: m rule: str_nat.induct)
  case (1 n)
  show ?case
  proof (cases "n < 10")
    case True
    then have "length (str_nat m) = Suc 0" using "1.prems" str_nat_length_one [of n] by simp
    then have m: "m < 10" by (simp add: str_nat_length_one)
    have "digit_char n = digit_char m" using "1.prems" True m by (simp add: str_nat_small)
    then show ?thesis using True m by (rule digit_char_inj [rotated 2])
  next
    case False
    then have "length (str_nat m) \<noteq> Suc 0" using "1.prems" str_nat_length_one [of n] by simp
    then have m: "\<not> m < 10" by (simp add: str_nat_length_one)
    have "str_nat (n div 10) @ [digit_char (n mod 10)] = str_nat (m div 10) @ [digit_char (m mod 10)]"
      using "1.prems" False m by (metis str_nat.simps)
    then have e: "str_nat (n div 10) = str_nat (m div 10)" "digit_char (n mod 10) = digit_char (m mod 10)"
      by simp_all
    have "n div 10 = m div 10" using "1.IH" [OF False e(1)] .
    moreover have "n mod 10 = m mod 10" using e(2) by (intro digit_char_inj) simp_all
    ultimately show ?thesis by (metis div_mult_mod_eq)
  qed
qed

lemma two_digits_digits: "set (two_digits n) \<subseteq> set ''0123456789''"
  using str_nat_digits [of n] by (auto simp: two_digits_def)

lemma two_digits_length: "n < 100 \<Longrightarrow> length (two_digits n) = 2"
proof -
  assume n: "n < 100"
  show ?thesis
  proof (cases "n < 10")
    case True
    then show ?thesis by (simp add: two_digits_def str_nat_small)
  next
    case False
    have "n div 10 < 10" using n by simp
    then have "str_nat n = [digit_char (n div 10), digit_char (n mod 10)]"
      using False by (subst str_nat.simps) (simp add: str_nat_small)
    then show ?thesis using False by (simp add: two_digits_def)
  qed
qed

lemma strftime_HMS_digits: "set (strftime_HMS t) \<subseteq> set ''0123456789''"
  using two_digits_digits by (auto simp: strftime_HMS_def)

lemma strftime_HMS_length: "valid_time t \<Longrightarrow> length (strftime_HMS t) = 6"
  by (simp add: strftime_HMS_def valid_time_def two_digits_length)

lemma out_path_of_eq:
  "out_path_of a env idx =
     Path (anchor (output_dir a))
       (parts (output_dir a) @ [out_name idx (strftime_HMS (datetime_now env idx))])"
proof -
  let ?n = "out_name idx (strftime_HMS (datetime_now env idx))"
  have "CHR ''/'' \<notin> set ?n"
    using str_nat_digits [of idx] strftime_HMS_digits [of "datetime_now env idx"]
    by (auto simp: out_name_def)
  moreover have "?n \<noteq> []" "?n \<noteq> ''.''" by (simp_all add: out_name_def)
  ultimately have "path_of_str ?n = Path [] [?n]" by (rule path_of_str_component)
  then show ?thesis by (simp add: out_path_of_def joinpath_def)
qed

lemma first_separator:
  assumes "x \<notin> set xs" "x \<notin> set ys" "xs @ x # r1 = ys @ x # r2"
  shows "xs = ys"
proof -
  have "takeWhile (\<lambda>c. c \<noteq> x) (xs @ x # r1) = xs"
    using assms(1) by (induction xs) auto
  moreover have "takeWhile (\<lambda>c. c \<noteq> x) (ys @ x # r2) = ys"
    using assms(2) by (induction ys) auto
  ultimately show ?thesis using assms(3) by simp
qed

lemma out_name_inj: "out_name i s = out_name j t \<Longrightarrow> i = j"
proof -
  assume "out_name i s = out_name j t"
  then have e: "str_nat i @ CHR ''_'' # (s @ ''.txt'') = str_nat j @ CHR ''_'' # (t @ ''.txt'')"
    by (simp add: out_name_def)
  have u: "CHR ''_'' \<notin> set (str_nat i)" "CHR ''_'' \<notin> set (str_nat j)"
    using str_nat_digits [of i] str_nat_digits [of j] by auto
  have "str_nat i = str_nat j"
    using u e by (rule first_separator)
  then show "i = j" by (rule str_nat_inj)
qed

lemma out_path_of_inj: "out_path_of a env i = out_path_of a env j \<Longrightarrow> i = j"
  by (auto simp: out_path_of_eq dest: out_name_inj)

lemma name_out_path_of:
  "name (out_path_of a env idx) = out_name idx (strftime_HMS (datetime_now env idx))"
  by (simp add: out_path_of_eq name_def)

section \<open>The transcript files\<close>

lemma write_transcript_ok:
  "write_transcript env fs idx out ls = (fs', None) \<Longrightarrow> fs' = put_file fs out ls"
  by (auto simp: write_transcript_def split: option.splits prod.splits if_splits)

lemma finish_file_ok:
  assumes "finish_file a env fs idx p ls = (evs, fs', None)"
  shows "fs' = put_file (mkdir_parents fs (output_dir a)) (out_path_of a env idx) ls"
proof (cases "mkdir_raises env idx")
  case (Some e)
  then show ?thesis using assms by (simp add: finish_file_def)
next
  case None
  obtain fs1 r1 where w: "write_transcript env (mkdir_parents fs (output_dir a)) idx
      (out_path_of a env idx) ls = (fs1, r1)"
    by (cases "write_transcript env (mkdir_parents fs (output_dir a)) idx (out_path_of a env idx) ls") auto
  have "r1 = None \<and> fs1 = fs'" using assms None w by (cases r1) (simp_all add: finish_file_def)
  then show ?thesis using w write_transcript_ok by blast
qed

lemma process_file_ok:
  assumes "process_file a env fs idx p = (evs, fs', None)"
  shows "fs' = put_file (mkdir_parents fs (output_dir a)) (out_path_of a env idx)
           (transcript_lines env idx p)"
proof (cases "transcribe env idx (str_path p)")
  case (Inl e)
  then show ?thesis using assms by (simp add: process_file_def)
next
  case (Inr res)
  obtain segs d where res: "res = (segs, d)" by (cases res)
  let ?L = "filter (\<lambda>t. t \<noteq> []) (map stripped_text (yielded segs))"
  obtain E where c: "consume_segments (float_ops env) (duration_or_zero d) segs = (?L, E, stream_raises segs)"
    by (metis consume_lines consume_raises prod.collapse)
  have tl: "transcript_lines env idx p = ?L" by (simp add: transcript_lines_def Inr res)
  show ?thesis
  proof (cases "stream_raises segs")
    case (Some e)
    then show ?thesis using assms by (simp add: process_file_def Inr res c)
  next
    case None
    obtain dv fs1 r1 where f: "finish_file a env fs idx p ?L = (dv, fs1, r1)"
      by (cases "finish_file a env fs idx p ?L") auto
    have "r1 = None \<and> fs1 = fs'" using assms by (simp add: process_file_def Inr res c None f)
    then have "finish_file a env fs idx p ?L = (dv, fs', None)" using f by simp
    then show ?thesis unfolding tl by (rule finish_file_ok)
  qed
qed

lemma put_file_files:
  "files (put_file fs out ls) =
     (files fs)(out \<mapsto> \<lparr>encoding = ''utf-8'', content = concat (map line_text ls)\<rparr>)"
  by (simp add: put_file_def)

lemma mkdir_parents_fields:
  "files (mkdir_parents fs p) = files fs" "p \<in> dirs (mkdir_parents fs p)"
  "dirs fs \<subseteq> dirs (mkdir_parents fs p)"
proof -
  show "files (mkdir_parents fs p) = files fs" by (simp add: mkdir_parents_def)
  have "Path (anchor p) (take (length (parts p)) (parts p)) \<in>
      (\<lambda>k. Path (anchor p) (take k (parts p))) ` {0..<Suc (length (parts p))}"
    by (rule imageI) simp
  then show "p \<in> dirs (mkdir_parents fs p)" by (simp add: mkdir_parents_def)
  show "dirs fs \<subseteq> dirs (mkdir_parents fs p)" by (auto simp: mkdir_parents_def)
qed

lemma put_file_dirs: "dirs (put_file fs out ls) = dirs fs"
  by (simp add: put_file_def)

text \<open>
  Claim C4. When the file at position \<open>idx\<close> is processed without an exception, the file
  system afterwards holds at the output path a text file with encoding \<open>utf-8\<close> whose
  content is every non-empty stripped segment text, in the order the engine yielded the
  segments, each followed by two newlines; no other file has changed. The output path is
  the output directory extended by the one component \<open>Call<idx>_<timestamp>.txt\<close>, where the
  time stamp consists of digits, six of them for a time of day; the output directory
  exists afterwards.
\<close>

theorem transcript_written:
  assumes "process_file a env fs idx audio_path = (evs, fs', None)"
  shows "files fs' (out_path_of a env idx) =
       Some \<lparr>encoding = ''utf-8'',
             content = concat (map line_text (transcript_lines env idx audio_path))\<rparr>
     \<and> (\<forall>p. p \<noteq> out_path_of a env idx \<longrightarrow> files fs' p = files fs p)
     \<and> out_path_of a env idx =
         Path (anchor (output_dir a))
           (parts (output_dir a) @ [out_name idx (strftime_HMS (datetime_now env idx))])
     \<and> name (out_path_of a env idx) =
         ''Call'' @ str_nat idx @ ''_'' @ strftime_HMS (datetime_now env idx) @ ''.txt''
     \<and> set (strftime_HMS (datetime_now env idx)) \<subseteq> set ''0123456789''
     \<and> (valid_time (datetime_now env idx) \<longrightarrow> length (strftime_HMS (datetime_now env idx)) = 6)
     \<and> output_dir a \<in> dirs fs'
     \<and> (\<exists>segments d. transcribe env idx (str_path audio_path) = Inr (segments, d)
          \<and> transcript_lines env idx audio_path =
              filter (\<lambda>t. t \<noteq> []) (map stripped_text (yielded segments)))"
proof -
  note fs' = process_file_ok [OF assms]
  have r: "file_raises env idx audio_path = None"
    using process_file_raised [of a env fs idx audio_path] assms by simp
  have tr: "\<exists>segments d. transcribe env idx (str_path audio_path) = Inr (segments, d)
          \<and> transcript_lines env idx audio_path =
              filter (\<lambda>t. t \<noteq> []) (map stripped_text (yielded segments))"
  proof (cases "transcribe env idx (str_path audio_path)")
    case (Inl e)
    then show ?thesis using r by (simp add: file_raises_def)
  next
    case (Inr res)
    then show ?thesis by (cases res) (simp add: transcript_lines_def)
  qed
  show ?thesis
    using tr strftime_HMS_digits [of "datetime_now env idx"]
      strftime_HMS_length [of "datetime_now env idx"]
      out_path_of_eq [of a env idx] name_out_path_of [of a env idx]
      mkdir_parents_fields(2) [of "output_dir a" fs]
    unfolding fs'
    by (simp add: put_file_files put_file_dirs mkdir_parents_fields(1) out_name_def)
qed

lemma ex_transcript_lines: "transcript_lines ex_env idx p = [''hello'', ''bye'']"
  by (simp add: transcript_lines_def ex_env_def ex_stream_def stripped_text_def strip_examples)

lemma ex_datetime: "datetime_now ex_env idx = \<lparr>hour = 9, minute = 5, second = 30\<rparr>"
  by (simp add: ex_env_def)

theorem transcript_written_witness:
  "process_file ex_app ex_env ex_fs 1 (Path ''/'' [''calls'', ''a.mp3'']) =
     ([FileStart 1 3 ''a.mp3'', Segment ''hello'' 42, Segment ''bye'' 0,
       FileDone 1 3 ''a.mp3'' ''/out/Call1_090530.txt'' 1],
      fst (snd (process_file ex_app ex_env ex_fs 1 (Path ''/'' [''calls'', ''a.mp3'']))), None)
   \<and> files (fst (snd (process_file ex_app ex_env ex_fs 1 (Path ''/'' [''calls'', ''a.mp3'']))))
         (Path ''/'' [''out'', ''Call1_090530.txt'']) =
       Some \<lparr>encoding = ''utf-8'',
             content = ''hello'' @ [CHR 0x0A, CHR 0x0A] @ ''bye'' @ [CHR 0x0A, CHR 0x0A]\<rparr>
   \<and> valid_time (datetime_now ex_env 1)
   \<and> length (strftime_HMS (datetime_now ex_env 1)) = 6"
proof -
  have n: "name (Path ''/'' [''calls'', ''a.mp3'']) = ''a.mp3''" by (simp add: name_def)
  have o: "str_path (out_path_of ex_app ex_env 1) = ''/out/Call1_090530.txt''"
    unfolding ex_out_path by (simp add: str_path_def)
  have h: "process_file ex_app ex_env ex_fs 1 (Path ''/'' [''calls'', ''a.mp3'']) =
     ([FileStart 1 3 ''a.mp3'', Segment ''hello'' 42, Segment ''bye'' 0,
       FileDone 1 3 ''a.mp3'' ''/out/Call1_090530.txt'' 1],
      fst (snd (process_file ex_app ex_env ex_fs 1 (Path ''/'' [''calls'', ''a.mp3'']))), None)"
    using ex_process_file [of ex_fs 1 "Path ''/'' [''calls'', ''a.mp3'']"] unfolding n o .
  have v: "valid_time (datetime_now ex_env 1)" by (simp add: ex_datetime valid_time_def)
  note t = transcript_written [OF h]
  have c: "files (fst (snd (process_file ex_app ex_env ex_fs 1 (Path ''/'' [''calls'', ''a.mp3'']))))
         (out_path_of ex_app ex_env 1) =
       Some \<lparr>encoding = ''utf-8'',
             content = concat (map line_text (transcript_lines ex_env 1 (Path ''/'' [''calls'', ''a.mp3''])))\<rparr>"
    using t by blast
  have l: "length (strftime_HMS (datetime_now ex_env 1)) = 6" using t v by blast
  show ?thesis using h v l c unfolding ex_out_path ex_transcript_lines
    by (simp add: line_text_def)
qed

text \<open>
  Claim C8. When the engine yields only segments whose stripped text is empty, and
  neither the engine nor the creation of the directory nor the opening of the file raises,
  the file is processed without an exception and the output file exists afterwards with
  empty content: no line is written.
\<close>

theorem empty_transcript_created:
  assumes "transcribe env idx (str_path audio_path) = Inr (segments, d)"
    and "stream_raises segments = None"
    and "\<forall>s \<in> set (yielded segments). stripped_text s = []"
    and "mkdir_raises env idx = None"
    and "open_raises env idx = None"
  shows "snd (snd (process_file a env fs idx audio_path)) = None
    \<and> transcript_lines env idx audio_path = []
    \<and> files (fst (snd (process_file a env fs idx audio_path))) (out_path_of a env idx) =
        Some \<lparr>encoding = ''utf-8'', content = []\<rparr>"
proof -
  have e: "filter (\<lambda>t. t \<noteq> []) (map stripped_text (yielded segments)) = []"
    using assms(3) by (simp add: filter_empty_conv)
  have r: "snd (snd (process_file a env fs idx audio_path)) = None"
    unfolding process_file_raised
    by (simp add: file_raises_def assms(1,2,4,5) e split: option.split)
  have l: "transcript_lines env idx audio_path = []"
    by (simp add: transcript_lines_def assms(1) e)
  obtain evs fs' where pf: "process_file a env fs idx audio_path = (evs, fs', None)"
    using r by (cases "process_file a env fs idx audio_path") auto
  have "files fs' (out_path_of a env idx) = Some \<lparr>encoding = ''utf-8'', content = []\<rparr>"
    unfolding process_file_ok [OF pf] l by (simp add: put_file_files)
  then show ?thesis using r l pf by simp
qed

lemma ex_blank_stripped:
  "stripped_text \<lparr>seg_text = Some ''   '', seg_end = Some 1\<rparr> = []"
  "stripped_text \<lparr>seg_text = None, seg_end = None\<rparr> = []"
  by (simp_all add: stripped_text_def strip_def isspace_def)

theorem empty_transcript_created_witness:
  "transcribe ex_env_blank 1 (str_path (Path ''/'' [''calls'', ''a.mp3''])) =
      Inr (ex_blank_stream, None)
   \<and> stream_raises ex_blank_stream = None
   \<and> map stripped_text (yielded ex_blank_stream) = [[], []]
   \<and> mkdir_raises ex_env_blank 1 = None
   \<and> open_raises ex_env_blank 1 = None
   \<and> snd (snd (process_file ex_app ex_env_blank ex_fs 1 (Path ''/'' [''calls'', ''a.mp3'']))) = None
   \<and> files (fst (snd (process_file ex_app ex_env_blank ex_fs 1 (Path ''/'' [''calls'', ''a.mp3'']))))
        (out_path_of ex_app ex_env_blank 1) = Some \<lparr>encoding = ''utf-8'', content = []\<rparr>"
proof -
  have h1: "transcribe ex_env_blank 1 (str_path (Path ''/'' [''calls'', ''a.mp3''])) =
      Inr (ex_blank_stream, None)"
    by (simp add: ex_env_blank_def)
  have h2: "stream_raises ex_blank_stream = None" by (simp add: ex_blank_stream_def)
  have h3: "\<forall>s \<in> set (yielded ex_blank_stream). stripped_text s = []"
    by (simp add: ex_blank_stream_def ex_blank_stripped)
  have h4: "mkdir_raises ex_env_blank 1 = None" by (simp add: ex_env_blank_def ex_env_def)
  have h5: "open_raises ex_env_blank 1 = None" by (simp add: ex_env_blank_def ex_env_def)
  have h6: "map stripped_text (yielded ex_blank_stream) = [[], []]"
    by (simp add: ex_blank_stream_def ex_blank_stripped)
  show ?thesis
    using empty_transcript_created [OF h1 h2 h3 h4 h5, of ex_app ex_fs] h1 h2 h4 h5 h6
    by blast
qed

section \<open>A run that completes\<close>

lemma foldl_handle_message_fields:
  "files_done (foldl handle_message b evs) = files_done b + length (List.map_filter done_index evs)"
  "total_files (foldl handle_message b evs) = total_files b"
proof -
  show "files_done (foldl handle_message b evs) = files_done b + length (List.map_filter done_index evs)"
    by (induction evs arbitrary: b)
      (simp_all add: List.map_filter_simps handle_message_fields split: option.split)
  show "total_files (foldl handle_message b evs) = total_files b"
    by (induction evs arbitrary: b) (simp_all add: handle_message_fields)
qed

lemma transcribe_files_files:
  assumes "snd (snd (transcribe_files a env fs idx ps)) = None"
  shows "(\<forall>i < length ps.
            files (fst (snd (transcribe_files a env fs idx ps))) (out_path_of a env (idx + i)) =
              Some \<lparr>encoding = ''utf-8'',
                    content = concat (map line_text (transcript_lines env (idx + i) (ps ! i)))\<rparr>)
       \<and> (\<forall>p. p \<notin> out_path_of a env ` {idx..<idx + length ps} \<longrightarrow>
            files (fst (snd (transcribe_files a env fs idx ps))) p = files fs p)"
  using assms
proof (induction ps arbitrary: fs idx)
  case Nil
  then show ?case by simp
next
  case (Cons q ps)
  obtain evs fs1 r where pf: "process_file a env fs idx q = (evs, fs1, r)"
    by (cases "process_file a env fs idx q") auto
  have r: "r = None" using Cons.prems pf by (cases r) simp_all
  have pf': "process_file a env fs idx q = (evs, fs1, None)" using pf r by simp
  let ?T = "transcribe_files a env fs1 (Suc idx) ps"
  have eq: "fst (snd (transcribe_files a env fs idx (q # ps))) = fst (snd ?T)"
    "snd (snd (transcribe_files a env fs idx (q # ps))) = snd (snd ?T)"
    using pf' by (simp_all split: prod.split)
  have ok: "snd (snd ?T) = None" using Cons.prems eq(2) by simp
  note ih = Cons.IH [OF ok]
  have f1: "files fs1 =
      (files fs)(out_path_of a env idx \<mapsto> \<lparr>encoding = ''utf-8'',
          content = concat (map line_text (transcript_lines env idx q))\<rparr>)"
    unfolding process_file_ok [OF pf'] by (simp add: put_file_files mkdir_parents_fields(1))
  have notin: "out_path_of a env idx \<notin> out_path_of a env ` {Suc idx..<Suc idx + length ps}"
    by (auto dest: out_path_of_inj)
  show ?case unfolding eq(1)
  proof (intro conjI allI impI)
    fix i assume i: "i < length (q # ps)"
    show "files (fst (snd ?T)) (out_path_of a env (idx + i)) =
        Some \<lparr>encoding = ''utf-8'',
              content = concat (map line_text (transcript_lines env (idx + i) ((q # ps) ! i)))\<rparr>"
    proof (cases i)
      case 0
      then show ?thesis using ih notin f1 by simp
    next
      case (Suc j)
      then show ?thesis using ih i by simp
    qed
  next
    fix p assume p: "p \<notin> out_path_of a env ` {idx..<idx + length (q # ps)}"
    have "p \<notin> out_path_of a env ` {Suc idx..<Suc idx + length ps}" using p by auto
    moreover have "p \<noteq> out_path_of a env idx" using p by auto
    ultimately show "files (fst (snd ?T)) p = files fs p" using ih f1 by simp
  qed
qed

text \<open>
  Claim C3. For a run started by \<open>on_start_transcription\<close> whose body raises nothing, the
  events end with \<open>all_done\<close>, and when \<open>all_done\<close> is handled, after all events before it,
  \<open>files_done\<close> equals the length of the snapshot. The output paths of the positions of the
  snapshot are pairwise different, each holds the transcript of the file at its position
  afterwards, and no other file has changed.
\<close>

theorem run_completes:
  assumes start: "on_start_transcription a0 = (a, True)"
    and ok: "snd (snd (worker_body a env fs)) = None"
  shows "(\<exists>pre t. worker_events a env fs = pre @ [AllDone t]
            \<and> files_done (foldl handle_message a pre) = length (worker_files a)
            \<and> files_done (foldl handle_message a (pre @ [AllDone t])) = length (worker_files a))
    \<and> length (worker_files a) = length (audio_files a0)
    \<and> distinct (map (out_path_of a env) [1..<Suc (length (worker_files a))])
    \<and> (\<forall>i < length (worker_files a).
          files (fst (snd (worker_body a env fs))) (out_path_of a env (Suc i)) =
            Some \<lparr>encoding = ''utf-8'',
                  content = concat (map line_text (transcript_lines env (Suc i) (worker_files a ! i)))\<rparr>)
    \<and> (\<forall>p. p \<notin> out_path_of a env ` {1..<Suc (length (worker_files a))} \<longrightarrow>
          files (fst (snd (worker_body a env fs))) p = files fs p)"
proof -
  note s = on_start_fields [OF start]
  have lm: "load_model_raises env = None"
    using ok by (cases "load_model_raises env") (simp_all add: worker_body_def)
  obtain evs fs1 r where tf: "transcribe_files a env fs 1 (worker_files a) = (evs, fs1, r)"
    by (cases "transcribe_files a env fs 1 (worker_files a)") auto
  have r: "r = None" using ok lm tf by (cases r) (simp_all add: worker_body_def)
  have wb: "worker_body a env fs =
      (Status ''Loading model (small, int8 on CPU)...''
         # Status ''Model loaded. Starting transcription...''
         # evs @ [AllDone (fsub (float_ops env) (time_run_end env) (time_run_start env))], fs1, None)"
    using lm tf r by (simp add: worker_body_def)
  from worker_body_shape [of a env fs] obtain k where
    k: "List.map_filter done_index (fst (worker_body a env fs)) = [1..<Suc k]"
      "k = length (worker_files a)"
    using ok by auto
  let ?pre = "Status ''Loading model (small, int8 on CPU)...''
         # Status ''Model loaded. Starting transcription...'' # evs"
  have "length (List.map_filter done_index (fst (worker_body a env fs))) = length (worker_files a)"
    unfolding k(1) using k(2) by (simp del: upt_Suc)
  then have dn: "length (List.map_filter done_index ?pre) = length (worker_files a)"
    unfolding wb by (simp add: map_filter_app List.map_filter_simps)
  have ev: "worker_events a env fs = ?pre @ [AllDone (fsub (float_ops env) (time_run_end env) (time_run_start env))]"
    unfolding worker_events_ok [OF ok] wb by simp
  have c1: "\<exists>pre t. worker_events a env fs = pre @ [AllDone t]
            \<and> files_done (foldl handle_message a pre) = length (worker_files a)
            \<and> files_done (foldl handle_message a (pre @ [AllDone t])) = length (worker_files a)"
    using ev dn s(1)
    by (intro exI [of _ ?pre] exI [of _ "fsub (float_ops env) (time_run_end env) (time_run_start env)"])
      (simp add: foldl_handle_message_fields map_filter_app List.map_filter_simps
        del: foldl_Cons foldl_append)
  have tok: "snd (snd (transcribe_files a env fs 1 (worker_files a))) = None" using tf r by simp
  note ff = transcribe_files_files [OF tok]
  have fs1: "fst (snd (worker_body a env fs)) = fst (snd (transcribe_files a env fs 1 (worker_files a)))"
    unfolding wb tf by simp
  have d: "distinct (map (out_path_of a env) [1..<Suc (length (worker_files a))])"
    by (simp add: distinct_map inj_on_def del: upt_Suc) (auto dest: out_path_of_inj)
  show ?thesis using c1 d ff s(4) unfolding fs1 by simp
qed

theorem run_completes_witness:
  "on_start_transcription ex_idle = (ex_app, True)
   \<and> snd (snd (worker_body ex_app ex_env ex_fs)) = None
   \<and> files_done (foldl handle_message ex_app (butlast (worker_events ex_app ex_env ex_fs))) = 3
   \<and> files (fst (snd (worker_body ex_app ex_env ex_fs))) (out_path_of ex_app ex_env (Suc 1)) =
        Some \<lparr>encoding = ''utf-8'',
              content = ''hello'' @ [CHR 0x0A, CHR 0x0A] @ ''bye'' @ [CHR 0x0A, CHR 0x0A]\<rparr>"
proof -
  have h1: "on_start_transcription ex_idle = (ex_app, True)"
    by (simp add: ex_app_def on_start_transcription_def ex_idle_def ex_files_def)
  have h2: "snd (snd (worker_body ex_app ex_env ex_fs)) = None"
    by (simp add: worker_body_raised ex_app_fields ex_files_def ex_env_file_raises ex_env_load)
  note t = run_completes [OF h1 h2]
  have n: "length (worker_files ex_app) = 3" by (simp add: ex_app_fields ex_files_def)
  from t obtain pre tt where p: "worker_events ex_app ex_env ex_fs = pre @ [AllDone tt]"
    "files_done (foldl handle_message ex_app pre) = length (worker_files ex_app)"
    by blast
  have c1: "files_done (foldl handle_message ex_app (butlast (worker_events ex_app ex_env ex_fs))) = 3"
    unfolding p(1) using p(2) n by simp
  from t have "\<forall>i < length (worker_files ex_app).
          files (fst (snd (worker_body ex_app ex_env ex_fs))) (out_path_of ex_app ex_env (Suc i)) =
            Some \<lparr>encoding = ''utf-8'',
                  content = concat (map line_text
                    (transcript_lines ex_env (Suc i) (worker_files ex_app ! i)))\<rparr>"
    by blast
  then have "files (fst (snd (worker_body ex_app ex_env ex_fs))) (out_path_of ex_app ex_env (Suc 1)) =
            Some \<lparr>encoding = ''utf-8'',
                  content = concat (map line_text
                    (transcript_lines ex_env (Suc 1) (worker_files ex_app ! 1)))\<rparr>"
    using n by simp
  then have c2: "files (fst (snd (worker_body ex_app ex_env ex_fs))) (out_path_of ex_app ex_env (Suc 1)) =
        Some \<lparr>encoding = ''utf-8'',
              content = ''hello'' @ [CHR 0x0A, CHR 0x0A] @ ''bye'' @ [CHR 0x0A, CHR 0x0A]\<rparr>"
    unfolding ex_transcript_lines by (simp add: line_text_def)
  show ?thesis using h1 h2 c1 c2 by blast
qed

section \<open>The fields of the controller that the worker depends on\<close>





section \<open>Loading and saving the output directory\<close>

lemma path_of_str_empty: "path_of_str [] = Path [] []"
  by (simp add: path_of_str_def)

lemma load_output_dir_no_file:
  "config_file env = NoFile \<Longrightarrow> downloads_mkdir_raises env = None \<Longrightarrow>
   load_output_dir env = Inr (DEFAULT_DOWNLOADS_DIR (home env))"
  by (simp add: load_output_dir_def config_output_dir_def)

lemma load_output_dir_unreadable:
  "config_file env = Unreadable e \<Longrightarrow> downloads_mkdir_raises env = None \<Longrightarrow>
   load_output_dir env = Inr (DEFAULT_DOWNLOADS_DIR (home env))"
  by (simp add: load_output_dir_def config_output_dir_def)

lemma load_output_dir_stored:
  assumes "config_file env = Parsed (JObj members)"
    and "dict_get members ''output_dir'' (JStr []) = JStr s"
  shows "load_output_dir env =
     (if path_exists (view env) (path_of_str s) = Inr True
         \<and> path_is_dir (view env) (path_of_str s) = Inr True
      then Inr (path_of_str s)
      else (case downloads_mkdir_raises env of
              Some e \<Rightarrow> Inl e
            | None \<Rightarrow> Inr (DEFAULT_DOWNLOADS_DIR (home env))))"
  using assms
  by (auto simp: load_output_dir_def config_output_dir_def Let_def split: sum.split option.split)

lemma save_then_load:
  assumes "write_text_raises env = None"
    and "path_of_str (str_path dir) = dir"
    and "path_exists (view env) dir = Inr True"
    and "path_is_dir (view env) dir = Inr True"
  shows "load_output_dir (save_output_dir env dir) = Inr dir"
proof -
  have c: "config_file (save_output_dir env dir) = Parsed (JObj [(''output_dir'', JStr (str_path dir))])"
    "view (save_output_dir env dir) = view env"
    using assms(1) by (simp_all add: save_output_dir_def)
  have g: "dict_get [(''output_dir'', JStr (str_path dir))] ''output_dir'' (JStr []) = JStr (str_path dir)"
    by (simp add: dict_get_def)
  show ?thesis
    unfolding load_output_dir_stored [OF c(1) g] c(2) assms(2)
    using assms(3,4) by simp
qed

lemma path_str_round_trip_example:
  "path_of_str (str_path (Path ''/'' [''home'', ''user'', ''out''])) =
     Path ''/'' [''home'', ''user'', ''out'']"
  by (simp add: str_path_def path_of_str_def)

text \<open>
  Claim C9. The code does not do what the claim says when the configuration file holds
  an object without the key \<open>output_dir\<close>: \<open>data.get("output_dir", "")\<close> gives the empty
  string, \<open>Path("")\<close> is the current directory, which exists and is a directory, so
  \<open>load_output_dir\<close> returns the current directory and not the default downloads location.
\<close>

theorem load_output_dir_missing_key:
  "config_file ex_config_env = Parsed (JObj [])
   \<and> load_output_dir ex_config_env = Inr (Path [] [])
   \<and> str_path (Path [] []) = ''.''
   \<and> DEFAULT_DOWNLOADS_DIR (home ex_config_env) = Path ''/'' [''home'', ''user'', ''Downloads'']
   \<and> load_output_dir ex_config_env \<noteq> Inr (DEFAULT_DOWNLOADS_DIR (home ex_config_env))"
proof -
  have c: "config_file ex_config_env = Parsed (JObj [])" by (simp add: ex_config_env_def)
  have g: "dict_get [] ''output_dir'' (JStr []) = JStr []" by (simp add: dict_get_def)
  have l: "load_output_dir ex_config_env = Inr (Path [] [])"
    unfolding load_output_dir_stored [OF c g] path_of_str_empty
    by (simp add: ex_config_env_def ex_config_view_def)
  have d: "DEFAULT_DOWNLOADS_DIR (home ex_config_env) = Path ''/'' [''home'', ''user'', ''Downloads'']"
    by (simp add: DEFAULT_DOWNLOADS_DIR_def ex_config_env_def joinpath_def path_of_str_def)
  show ?thesis using c l d by (simp add: str_path_def)
qed

section \<open>The percentage of a segment\<close>

lemma segment_percent_float:
  "segment_percent ops (duration_or_zero dur) (Some e) = float_percent ops dur e"
  by (auto simp: segment_percent_def duration_or_zero_def float_percent_def clamp_def py_int_def
      py_min_def py_max_def max_def min_def split: option.splits)

lemma segment_percent_unknown:
  "dur = None \<or> (\<exists>t. dur = Some t \<and> t \<le> 0) \<Longrightarrow>
   segment_percent ops (duration_or_zero dur) e = 0"
  by (auto simp: segment_percent_def duration_or_zero_def)

lemma segment_percent_range:
  "0 \<le> segment_percent ops d e \<and> segment_percent ops d e \<le> 100"
  by (auto simp: segment_percent_def py_int_def py_min_def py_max_def le_floor_iff floor_le_iff
      split: option.splits)

lemma abs_scaled_bounds:
  fixes d c :: real
  assumes "\<bar>d\<bar> * 4503599627370496 \<le> c"
  shows "d * 4503599627370496 \<le> c" "- d * 4503599627370496 \<le> c"
proof -
  have "d \<le> \<bar>d\<bar>" "- d \<le> \<bar>d\<bar>" by simp_all
  then have "d * 4503599627370496 \<le> \<bar>d\<bar> * 4503599627370496"
    "- d * 4503599627370496 \<le> \<bar>d\<bar> * 4503599627370496"
    by simp_all
  then show "d * 4503599627370496 \<le> c" "- d * 4503599627370496 \<le> c"
    using assms by linarith+
qed

lemma within_rounding_scaled:
  "within_rounding r x \<Longrightarrow> \<bar>r - x\<bar> * 4503599627370496 \<le> \<bar>x\<bar>"
  unfolding within_rounding_def by (simp add: field_simps)

lemma floor_close:
  fixes a b :: real
  assumes "\<bar>a - b\<bar> < 1"
  shows "\<bar>\<lfloor>a\<rfloor> - \<lfloor>b\<rfloor>\<bar> \<le> 1"
proof -
  have "of_int \<lfloor>a\<rfloor> \<le> a" "a < of_int \<lfloor>a\<rfloor> + 1" "of_int \<lfloor>b\<rfloor> \<le> b" "b < of_int \<lfloor>b\<rfloor> + 1"
    by linarith+
  then have "(of_int \<lfloor>a\<rfloor> :: real) < of_int \<lfloor>b\<rfloor> + 2" "(of_int \<lfloor>b\<rfloor> :: real) < of_int \<lfloor>a\<rfloor> + 2"
    using assms by linarith+
  then have "\<lfloor>a\<rfloor> < \<lfloor>b\<rfloor> + 2" "\<lfloor>b\<rfloor> < \<lfloor>a\<rfloor> + 2"
    by linarith+
  then show ?thesis by linarith
qed

lemma clamp_rounded_close:
  assumes q: "within_rounding q y" and r: "within_rounding r (q * 100)"
  shows "\<bar>clamp r 0 100 - clamp (y * 100) 0 100\<bar> < 1"
proof -
  note a = within_rounding_scaled [OF q]
  note b = within_rounding_scaled [OF r]
  consider "y \<le> 0" | "2 \<le> y" | "0 < y" "y < 2" by linarith
  then show ?thesis
  proof cases
    case 1
    then have "\<bar>y\<bar> = - y" by simp
    then have "(q - y) * 4503599627370496 \<le> - y" using abs_scaled_bounds(1) [OF a] by simp
    then have q0: "q \<le> 0" using 1 by (simp add: algebra_simps)
    then have "\<bar>q * 100\<bar> = - (q * 100)" by simp
    then have "(r - q * 100) * 4503599627370496 \<le> - (q * 100)"
      using abs_scaled_bounds(1) [OF b] by simp
    then have "r \<le> 0" using q0 by (simp add: algebra_simps)
    then show ?thesis using 1 by (simp add: clamp_def)
  next
    case 2
    then have "\<bar>y\<bar> = y" by simp
    then have "- (q - y) * 4503599627370496 \<le> y" using abs_scaled_bounds(2) [OF a] by simp
    then have q1: "3 / 2 \<le> q" using 2 by (simp add: algebra_simps)
    then have "\<bar>q * 100\<bar> = q * 100" by simp
    then have "- (r - q * 100) * 4503599627370496 \<le> q * 100"
      using abs_scaled_bounds(2) [OF b] by simp
    then have "100 \<le> r" using q1 by (simp add: algebra_simps)
    then show ?thesis using 2 by (simp add: clamp_def)
  next
    case 3
    then have y: "\<bar>y\<bar> = y" by simp
    have "(q - y) * 4503599627370496 \<le> y" "- (q - y) * 4503599627370496 \<le> y"
      using abs_scaled_bounds [OF a] y by simp_all
    then have q1: "y - 1 / 1000 \<le> q" and q2: "q \<le> y + 1 / 1000"
      using 3 by (simp_all add: algebra_simps)
    have "\<bar>q * 100\<bar> \<le> 300" using q1 q2 3 by (simp add: abs_le_iff)
    then have "(r - q * 100) * 4503599627370496 \<le> 300" "- (r - q * 100) * 4503599627370496 \<le> 300"
      using abs_scaled_bounds [OF b] by linarith+
    then have "r - q * 100 \<le> 1 / 1000" "q * 100 - r \<le> 1 / 1000"
      by (simp_all add: algebra_simps)
    then have "\<bar>r - y * 100\<bar> < 1" using q1 q2 by (simp add: abs_less_iff)
    then show ?thesis by (simp add: clamp_def max_def min_def abs_less_iff split: if_splits)
  qed
qed

lemma percent_of_rounded:
  assumes q: "within_rounding q (42.5 / 100)" and r: "within_rounding r (q * 100)"
  shows "py_int (py_min (py_max r 0) 100) = 42"
proof -
  have a: "\<bar>q - 17 / 40\<bar> * 4503599627370496 \<le> 17 / 40"
    using q unfolding within_rounding_def by (simp add: field_simps)
  note a' = abs_scaled_bounds [OF a]
  have q1: "17 / 40 - 1 / 1000 \<le> q" using a'(2) by (simp add: algebra_simps)
  have q2: "q \<le> 17 / 40 + 1 / 1000" using a'(1) by (simp add: algebra_simps)
  have "\<bar>q * 100\<bar> = q * 100" using q1 by simp
  then have b: "\<bar>r - q * 100\<bar> * 4503599627370496 \<le> q * 100"
    using r unfolding within_rounding_def by (simp add: field_simps)
  note b' = abs_scaled_bounds [OF b]
  have r1: "q * 100 - 1 / 1000 \<le> r" using b'(2) q2 by (simp add: algebra_simps)
  have r2: "r \<le> q * 100 + 1 / 1000" using b'(1) q2 by (simp add: algebra_simps)
  have lo: "42 \<le> r" using q1 r1 by linarith
  have hi: "r < 43" using q2 r2 by linarith
  have "\<lfloor>r\<rfloor> = 42" using lo hi by (simp add: floor_eq_iff)
  then show ?thesis using lo hi by (simp add: py_int_def py_min_def py_max_def)
qed

lemma percent_close:
  assumes "0 < t"
    and "within_rounding (fdiv ops e t) (e / t)"
    and "within_rounding (fmul ops (fdiv ops e t) 100) (fdiv ops e t * 100)"
  shows "\<bar>float_percent ops (Some t) e - spec_percent (Some t) e\<bar> \<le> 1"
  using floor_close [OF clamp_rounded_close [OF assms(2,3)]] assms(1)
  by (simp add: float_percent_def spec_percent_def)

lemma binade_examples:
  "binade (29 / 100) = - 2" "binade (17 / 40) = - 2"
  "binade (130604389193744375 / 4503599627370496) = 4"
  "binade (191402984163246075 / 4503599627370496) = 5"
  by (simp_all add: binade_def numeral_eq_Suc)

lemma ieee_div_29: "fdiv ieee_ops 29 100 = 5224175567749775 / 18014398509481984"
  by (simp add: ieee_ops_def round_double_def binade_examples pow2_def round_half_even_def Let_def)

lemma ieee_mul_29:
  "fmul ieee_ops (5224175567749775 / 18014398509481984) 100 = 8162774324609023 / 281474976710656"
  by (simp add: ieee_ops_def round_double_def binade_examples pow2_def round_half_even_def Let_def)

lemma ieee_div_42: "fdiv ieee_ops (85 / 2) 100 = 7656119366529843 / 18014398509481984"
  by (simp add: ieee_ops_def round_double_def binade_examples pow2_def round_half_even_def Let_def)

lemma ieee_mul_42:
  "fmul ieee_ops (7656119366529843 / 18014398509481984) 100 = 85 / 2"
  by (simp add: ieee_ops_def round_double_def binade_examples pow2_def round_half_even_def Let_def)

lemma ieee_percent_29: "segment_percent ieee_ops 100 (Some 29) = 28"
  by (simp add: segment_percent_def ieee_div_29 ieee_mul_29 py_int_def py_min_def py_max_def)

lemma ieee_percent_42: "segment_percent ieee_ops 100 (Some 42.5) = 42"
  by (simp add: segment_percent_def ieee_div_42 ieee_mul_42 py_int_def py_min_def py_max_def)

text \<open>
  Claim C2, as amended. Every segment whose stripped text is not empty gets one \<open>segment\<close>
  event, in the order of the segments, with a percentage between 0 and 100. When the
  segment has an end time, the percentage is the clamped ratio of the specification,
  rounded down, with the division and the multiplication computed in floating point; it
  differs by at most 1 from the value of the formula in exact arithmetic whenever the
  quotient and the product are within rounding of their exact values. When the total
  duration is unknown or not positive, the percentage is 0. With a duration of 100 seconds
  and a segment ending at 42.5 seconds the percentage is 42.
\<close>

theorem segment_event_percent:
  "list_all2
     (\<lambda>s ev. \<exists>p. ev = Segment (stripped_text s) p \<and> 0 \<le> p \<and> p \<le> 100
        \<and> (\<forall>e. seg_end s = Some e \<longrightarrow>
               p = float_percent ops dur e
               \<and> (\<forall>t. dur = Some t \<and> 0 < t
                     \<and> within_rounding (fdiv ops e t) (e / t)
                     \<and> within_rounding (fmul ops (fdiv ops e t) 100) (fdiv ops e t * 100) \<longrightarrow>
                   \<bar>p - spec_percent dur e\<bar> \<le> 1))
        \<and> (dur = None \<or> (\<exists>t. dur = Some t \<and> t \<le> 0) \<longrightarrow> p = 0))
     (filter (\<lambda>s. stripped_text s \<noteq> []) (yielded segments))
     (fst (snd (consume_segments ops (duration_or_zero dur) segments)))
   \<and> (within_rounding (fdiv ops 42.5 100) (42.5 / 100)
        \<and> within_rounding (fmul ops (fdiv ops 42.5 100) 100) (fdiv ops 42.5 100 * 100) \<longrightarrow>
      segment_percent ops (duration_or_zero (Some 100)) (Some 42.5) = 42
      \<and> spec_percent (Some 100) 42.5 = 42)"
proof (intro conjI impI)
  have one: "\<exists>p. Segment (stripped_text s) (segment_percent ops (duration_or_zero dur) (seg_end s)) =
          Segment (stripped_text s) p \<and> 0 \<le> p \<and> p \<le> 100
        \<and> (\<forall>e. seg_end s = Some e \<longrightarrow>
               p = float_percent ops dur e
               \<and> (\<forall>t. dur = Some t \<and> 0 < t
                     \<and> within_rounding (fdiv ops e t) (e / t)
                     \<and> within_rounding (fmul ops (fdiv ops e t) 100) (fdiv ops e t * 100) \<longrightarrow>
                   \<bar>p - spec_percent dur e\<bar> \<le> 1))
        \<and> (dur = None \<or> (\<exists>t. dur = Some t \<and> t \<le> 0) \<longrightarrow> p = 0)" for s
  proof (intro exI [of _ "segment_percent ops (duration_or_zero dur) (seg_end s)"] conjI allI impI)
    show "0 \<le> segment_percent ops (duration_or_zero dur) (seg_end s)"
      "segment_percent ops (duration_or_zero dur) (seg_end s) \<le> 100"
      using segment_percent_range by simp_all
  next
    fix e assume e: "seg_end s = Some e"
    show "segment_percent ops (duration_or_zero dur) (seg_end s) = float_percent ops dur e"
      unfolding e by (rule segment_percent_float)
    fix t assume t: "dur = Some t \<and> 0 < t
                     \<and> within_rounding (fdiv ops e t) (e / t)
                     \<and> within_rounding (fmul ops (fdiv ops e t) 100) (fdiv ops e t * 100)"
    then have "\<bar>float_percent ops (Some t) e - spec_percent (Some t) e\<bar> \<le> 1"
      by (intro percent_close) simp_all
    then show "\<bar>segment_percent ops (duration_or_zero dur) (seg_end s) - spec_percent dur e\<bar> \<le> 1"
      unfolding e segment_percent_float using t by simp
  next
    assume "dur = None \<or> (\<exists>t. dur = Some t \<and> t \<le> 0)"
    then show "segment_percent ops (duration_or_zero dur) (seg_end s) = 0"
      by (rule segment_percent_unknown)
  qed simp
  show "list_all2
     (\<lambda>s ev. \<exists>p. ev = Segment (stripped_text s) p \<and> 0 \<le> p \<and> p \<le> 100
        \<and> (\<forall>e. seg_end s = Some e \<longrightarrow>
               p = float_percent ops dur e
               \<and> (\<forall>t. dur = Some t \<and> 0 < t
                     \<and> within_rounding (fdiv ops e t) (e / t)
                     \<and> within_rounding (fmul ops (fdiv ops e t) 100) (fdiv ops e t * 100) \<longrightarrow>
                   \<bar>p - spec_percent dur e\<bar> \<le> 1))
        \<and> (dur = None \<or> (\<exists>t. dur = Some t \<and> t \<le> 0) \<longrightarrow> p = 0))
     (filter (\<lambda>s. stripped_text s \<noteq> []) (yielded segments))
     (fst (snd (consume_segments ops (duration_or_zero dur) segments)))"
    unfolding consume_events list_all2_map2
    by (rule list_all2_refl) (rule one)
next
  assume h: "within_rounding (fdiv ops 42.5 100) (42.5 / 100)
        \<and> within_rounding (fmul ops (fdiv ops 42.5 100) 100) (fdiv ops 42.5 100 * 100)"
  have "py_int (py_min (py_max (fmul ops (fdiv ops 42.5 100) 100) 0) 100) = 42"
    by (rule percent_of_rounded [OF conjunct1 [OF h] conjunct2 [OF h]])
  then show "segment_percent ops (duration_or_zero (Some 100)) (Some 42.5) = 42"
    by (simp add: segment_percent_def duration_or_zero_def)
next
  show "spec_percent (Some 100) 42.5 = 42"
    by (simp add: spec_percent_def clamp_def)
qed

lemma ieee_within_rounding_42:
  "within_rounding (fdiv ieee_ops 42.5 100) (42.5 / 100)"
  "within_rounding (fmul ieee_ops (fdiv ieee_ops 42.5 100) 100) (fdiv ieee_ops 42.5 100 * 100)"
  by (simp_all add: within_rounding_def ieee_div_42 ieee_mul_42)

theorem segment_event_percent_witness:
  "within_rounding (fdiv ieee_ops 42.5 100) (42.5 / 100)
   \<and> within_rounding (fmul ieee_ops (fdiv ieee_ops 42.5 100) 100) (fdiv ieee_ops 42.5 100 * 100)
   \<and> segment_percent ieee_ops (duration_or_zero (Some 100)) (Some 42.5) = 42
   \<and> spec_percent (Some 100) 42.5 = 42
   \<and> fst (snd (consume_segments ieee_ops (duration_or_zero (Some 100)) ex_stream)) =
       [Segment ''hello'' 42, Segment ''bye'' 0]
   \<and> fst (snd (consume_segments ieee_ops (duration_or_zero None) ex_stream)) =
       [Segment ''hello'' 0, Segment ''bye'' 0]"
proof -
  note w = ieee_within_rounding_42
  have p: "segment_percent ieee_ops (duration_or_zero (Some 100)) (Some 42.5) = 42
      \<and> spec_percent (Some 100) 42.5 = 42"
    using segment_event_percent [of ieee_ops "Some 100" ex_stream] w by blast
  have c1: "fst (snd (consume_segments ieee_ops (duration_or_zero (Some 100)) ex_stream)) =
       [Segment ''hello'' 42, Segment ''bye'' 0]"
    using segment_event_percent [of ieee_ops "Some 100" ex_stream] p
    by (simp add: ex_stream_def stripped_text_def strip_examples Let_def)
      (simp add: segment_percent_def)
  have c2: "fst (snd (consume_segments ieee_ops (duration_or_zero None) ex_stream)) =
       [Segment ''hello'' 0, Segment ''bye'' 0]"
    using segment_event_percent [of ieee_ops None ex_stream]
    by (simp add: ex_stream_def stripped_text_def strip_examples Let_def
        segment_percent_def duration_or_zero_def)
  show ?thesis using w p c1 c2 by simp
qed

theorem percent_exact_formula_counterexample:
  "fst (snd (consume_segments ieee_ops (duration_or_zero (Some 100))
      (SYield \<lparr>seg_text = Some ''hello'', seg_end = Some 29\<rparr> SEnd))) = [Segment ''hello'' 28]
   \<and> spec_percent (Some 100) 29 = 29"
proof -
  have s: "strip ''hello'' = ''hello''" by (simp add: strip_def isspace_def)
  have d: "duration_or_zero (Some 100) = 100" by (simp add: duration_or_zero_def)
  show ?thesis
    unfolding d by (simp add: stripped_text_def s Let_def ieee_percent_29 spec_percent_def clamp_def)
qed

section \<open>Every raise point ends the run\<close>







section \<open>Staging files\<close>

lemma already_staged_False:
  assumes "\<forall>f \<in> set staged. path_exists v f = Inr True"
    and "already_staged v r staged = Inr False"
  shows "r \<notin> resolved_or_self v ` set staged"
  using assms
proof (induction staged)
  case Nil
  then show ?case by simp
next
  case (Cons f staged)
  have ex: "path_exists v f = Inr True" using Cons.prems(1) by simp
  show ?case
  proof (cases "path_resolve v f")
    case (Inl e)
    then show ?thesis using Cons.prems(2) ex by simp
  next
    case (Inr q)
    have k: "resolved_or_self v f = q" by (simp add: resolved_or_self_def Inr)
    have "q \<noteq> r \<and> already_staged v r staged = Inr False"
      using Cons.prems(2) ex Inr by (simp split: if_splits)
    then show ?thesis using Cons.IH Cons.prems(1) k by auto
  qed
qed

lemma already_staged_member:
  assumes "\<forall>f \<in> set staged. path_exists v f = Inr True"
    and "r \<in> resolved_or_self v ` set staged"
  shows "already_staged v r staged \<noteq> Inr False"
  using already_staged_False [OF assms(1)] assms(2) by blast

lemma add_files_distinct:
  assumes "\<forall>f \<in> set staged \<union> set filepaths. path_exists v f = Inr True"
    and "distinct (map (resolved_or_self v) staged)"
  shows "distinct (map (resolved_or_self v) (fst (add_files v staged filepaths)))
     \<and> set (fst (add_files v staged filepaths)) \<subseteq> set staged \<union> set filepaths"
  using assms
proof (induction filepaths arbitrary: staged)
  case Nil
  then show ?case by simp
next
  case (Cons p ps)
  have st: "\<forall>f \<in> set staged. path_exists v f = Inr True" using Cons.prems(1) by simp
  show ?case
  proof (cases "lower (suffix p) \<notin> SUPPORTED_EXTS")
    case True
    have "distinct (map (resolved_or_self v) (fst (add_files v staged ps)))
     \<and> set (fst (add_files v staged ps)) \<subseteq> set staged \<union> set ps"
      using Cons.prems by (intro Cons.IH) auto
    then show ?thesis using True by auto
  next
    case False
    show ?thesis
    proof (cases "already_staged v (resolved_or_self v p) staged")
      case (Inl e)
      then show ?thesis using False Cons.prems(2) by auto
    next
      case (Inr already)
      let ?staged' = "if already then staged else staged @ [p]"
      have step: "add_files v staged (p # ps) = add_files v ?staged' ps"
        using False Inr by simp
      have "\<not> already \<Longrightarrow> resolved_or_self v p \<notin> resolved_or_self v ` set staged"
        using already_staged_False [OF st] Inr by simp
      then have d: "distinct (map (resolved_or_self v) ?staged')" using Cons.prems(2) by auto
      have g: "\<forall>f \<in> set ?staged' \<union> set ps. path_exists v f = Inr True"
        using Cons.prems(1) by auto
      have "distinct (map (resolved_or_self v) (fst (add_files v ?staged' ps)))
       \<and> set (fst (add_files v ?staged' ps)) \<subseteq> set ?staged' \<union> set ps"
        using g d by (rule Cons.IH)
      then show ?thesis unfolding step by (auto split: if_splits)
    qed
  qed
qed

lemma on_select_files_distinct:
  assumes "\<forall>f \<in> set (audio_files a) \<union> set filepaths. path_exists v f = Inr True"
    and "distinct (map (resolved_or_self v) (audio_files a))"
  shows "distinct (map (resolved_or_self v) (audio_files (fst (on_select_files a v filepaths))))
     \<and> set (audio_files (fst (on_select_files a v filepaths))) \<subseteq> set (audio_files a) \<union> set filepaths"
proof -
  obtain staged r where af: "add_files v (audio_files a) filepaths = (staged, r)"
    by (cases "add_files v (audio_files a) filepaths") auto
  from add_files_distinct [OF assms] af
  have s: "distinct (map (resolved_or_self v) staged)"
    "set staged \<subseteq> set (audio_files a) \<union> set filepaths"
    by simp_all
  show ?thesis using s assms(2) af by (cases r) (auto simp: on_select_files_def)
qed

lemma add_files_not_appended:
  assumes "\<forall>f \<in> set staged. path_exists v f = Inr True"
    and "resolved_or_self v p \<in> resolved_or_self v ` set staged"
  shows "fst (add_files v staged [p]) = staged"
proof (cases "lower (suffix p) \<notin> SUPPORTED_EXTS")
  case True
  then show ?thesis by simp
next
  case False
  show ?thesis
  proof (cases "already_staged v (resolved_or_self v p) staged")
    case (Inl e)
    then show ?thesis using False by simp
  next
    case (Inr already)
    then have already using already_staged_member [OF assms] by (cases already) simp_all
    then show ?thesis using False Inr by simp
  qed
qed

text \<open>
  Claim C7. The file dialog returns files that exist. In a file system in which every
  staged and every selected path exists, and with no two staged entries that resolve to
  the same path at the beginning, after any sequence of selections no two staged entries
  resolve to the same path; a selected path whose resolved path is that of a staged entry
  is not appended. The resolved path of an entry is what \<open>resolve\<close> returns, or the entry
  itself when \<open>resolve\<close> raises.
\<close>

theorem staged_files_distinct:
  assumes "\<forall>f \<in> set (audio_files a) \<union> \<Union> (set ` set batches). path_exists v f = Inr True"
    and "distinct (map (resolved_or_self v) (audio_files a))"
  shows "distinct (map (resolved_or_self v) (audio_files (select_all a v batches)))
     \<and> (\<forall>p. resolved_or_self v p \<in> resolved_or_self v ` set (audio_files a) \<longrightarrow>
            fst (add_files v (audio_files a) [p]) = audio_files a)"
proof
  show "distinct (map (resolved_or_self v) (audio_files (select_all a v batches)))"
    using assms
  proof (induction batches arbitrary: a)
    case Nil
    then show ?case by simp
  next
    case (Cons b bs)
    have g: "\<forall>f \<in> set (audio_files a) \<union> set b. path_exists v f = Inr True"
      using Cons.prems(1) by auto
    note s = on_select_files_distinct [OF g Cons.prems(2)]
    have "\<forall>f \<in> set (audio_files (fst (on_select_files a v b))) \<union> \<Union> (set ` set bs).
             path_exists v f = Inr True"
      using s Cons.prems(1) by auto
    then show ?case using Cons.IH s by simp
  qed
  have st: "\<forall>f \<in> set (audio_files a). path_exists v f = Inr True"
    using assms(1) by auto
  show "\<forall>p. resolved_or_self v p \<in> resolved_or_self v ` set (audio_files a) \<longrightarrow>
            fst (add_files v (audio_files a) [p]) = audio_files a"
    using add_files_not_appended [OF st] by blast
qed

lemma ex_suffixes:
  "lower (suffix (Path ''/'' [''calls'', ''a.mp3''])) = ''.mp3''"
  "lower (suffix (Path ''/'' [''calls'', ''b.wav''])) = ''.wav''"
  "lower (suffix (Path ''/'' [''link'', ''a.mp3''])) = ''.mp3''"
  "lower (suffix (Path ''/'' [''real'', ''a.mp3''])) = ''.mp3''"
  by (simp_all add: suffix_def name_def lower_def lower_char_def)

lemma ex_supported: "''.mp3'' \<in> SUPPORTED_EXTS" "''.wav'' \<in> SUPPORTED_EXTS"
  by (simp_all add: SUPPORTED_EXTS_def)

lemma ex_view_link_fields:
  "path_exists ex_view_link p = Inr True"
  "path_resolve ex_view_link (Path ''/'' [''link'', ''a.mp3'']) = Inr (Path ''/'' [''real'', ''a.mp3''])"
  "path_resolve ex_view_link (Path ''/'' [''real'', ''a.mp3'']) = Inr (Path ''/'' [''real'', ''a.mp3''])"
  "path_resolve ex_view_link (Path ''/'' [''calls'', x]) = Inr (Path ''/'' [''calls'', x])"
  "resolved_or_self ex_view_link (Path ''/'' [''link'', ''a.mp3'']) = Path ''/'' [''real'', ''a.mp3'']"
  "resolved_or_self ex_view_link (Path ''/'' [''real'', ''a.mp3'']) = Path ''/'' [''real'', ''a.mp3'']"
  "resolved_or_self ex_view_link (Path ''/'' [''calls'', x]) = Path ''/'' [''calls'', x]"
  by (simp_all add: ex_view_link_def resolved_or_self_def)

lemma ex_fresh_fields: "audio_files ex_fresh = []" "\<not> is_transcribing ex_fresh"
  by (simp_all add: ex_fresh_def ex_idle_def)

theorem staged_files_distinct_witness:
  "path_exists ex_view_link (Path ''/'' [''link'', ''a.mp3'']) = Inr True
   \<and> path_exists ex_view_link (Path ''/'' [''real'', ''a.mp3'']) = Inr True
   \<and> path_exists ex_view_link (Path ''/'' [''calls'', ''b.wav'']) = Inr True
   \<and> audio_files ex_fresh = []
   \<and> distinct (map (resolved_or_self ex_view_link) (audio_files ex_fresh))
   \<and> audio_files (select_all ex_fresh ex_view_link
        [[Path ''/'' [''link'', ''a.mp3''], Path ''/'' [''real'', ''a.mp3'']],
         [Path ''/'' [''calls'', ''b.wav''], Path ''/'' [''link'', ''a.mp3'']]]) =
       [Path ''/'' [''link'', ''a.mp3''], Path ''/'' [''calls'', ''b.wav'']]
   \<and> distinct (map (resolved_or_self ex_view_link) (audio_files (select_all ex_fresh ex_view_link
        [[Path ''/'' [''link'', ''a.mp3''], Path ''/'' [''real'', ''a.mp3'']],
         [Path ''/'' [''calls'', ''b.wav''], Path ''/'' [''link'', ''a.mp3'']]])))
   \<and> distinct (map (resolved_or_self ex_view_link) (audio_files ex_idle))
   \<and> resolved_or_self ex_view_link (Path ''/'' [''calls'', ''b.wav''])
        \<in> resolved_or_self ex_view_link ` set (audio_files ex_idle)
   \<and> fst (add_files ex_view_link (audio_files ex_idle) [Path ''/'' [''calls'', ''b.wav'']]) =
        audio_files ex_idle"
proof -
  let ?batches = "[[Path ''/'' [''link'', ''a.mp3''], Path ''/'' [''real'', ''a.mp3'']],
                   [Path ''/'' [''calls'', ''b.wav''], Path ''/'' [''link'', ''a.mp3'']]]"
  have h1: "\<forall>f \<in> set (audio_files ex_fresh) \<union> \<Union> (set ` set ?batches).
      path_exists ex_view_link f = Inr True"
    by (simp add: ex_view_link_fields)
  have h2: "distinct (map (resolved_or_self ex_view_link) (audio_files ex_fresh))"
    by (simp add: ex_fresh_fields)
  have e: "audio_files (select_all ex_fresh ex_view_link ?batches) =
       [Path ''/'' [''link'', ''a.mp3''], Path ''/'' [''calls'', ''b.wav'']]"
    by (simp add: on_select_files_def ex_fresh_fields ex_suffixes ex_supported
        ex_view_link_fields)
  have i1: "\<forall>f \<in> set (audio_files ex_idle) \<union> \<Union> (set ` set []).
      path_exists ex_view_link f = Inr True"
    by (simp add: ex_view_link_fields)
  have i2: "distinct (map (resolved_or_self ex_view_link) (audio_files ex_idle))"
    by (simp add: ex_view_link_fields ex_idle_def ex_files_def)
  have m: "resolved_or_self ex_view_link (Path ''/'' [''calls'', ''b.wav''])
        \<in> resolved_or_self ex_view_link ` set (audio_files ex_idle)"
    by (simp add: ex_view_link_fields ex_idle_def ex_files_def)
  have r: "fst (add_files ex_view_link (audio_files ex_idle) [Path ''/'' [''calls'', ''b.wav'']]) =
        audio_files ex_idle"
    using staged_files_distinct [OF i1 i2] m by blast
  have d: "distinct (map (resolved_or_self ex_view_link)
             (audio_files (select_all ex_fresh ex_view_link ?batches)))"
    using staged_files_distinct [OF h1 h2] by blast
  show ?thesis using d h2 e i2 m r
    by (simp add: ex_view_link_fields ex_fresh_fields)
qed

section \<open>What the worker reads and writes during a run\<close>








end
